theory Spec2Isabelle
  imports Main "HOL-Library.Word" "HOL-Library.Sublist"
begin

unbundle bit_operations_syntax

section \<open>Configuration (config.hpp)\<close>

definition DISPLAY_WIDTH :: "16 word" where
  "DISPLAY_WIDTH = 128"

definition DISPLAY_HEIGHT :: "16 word" where
  "DISPLAY_HEIGHT = 296"

definition MAX_IMAGE_FILES :: nat where
  "MAX_IMAGE_FILES = 100"

definition IMAGE_EXTENSIONS :: "string list" where
  "IMAGE_EXTENSIONS = [''.bmp'', ''.BMP'']"

section \<open>Panel colours and panel calls\<close>

text \<open>
  Modelled from the spec: the colour codes \<open>EPD_BLACK\<close>, \<open>EPD_WHITE\<close> and \<open>EPD_RED\<close>
  are declared in Adafruit_EPD.h, which is not among the sources. The spec gives the panel
  three abstract colour codes; they are three distinct constructors here.
\<close>

datatype epd_color = EPD_BLACK | EPD_WHITE | EPD_RED

text \<open>
  The panel object is only ever called, never read. It is modelled by the sequence of
  calls made on it, oldest first.
\<close>

datatype display_op =
    ClearBuffer
  | DrawPixel "32 word" "32 word" epd_color
  | SetTextSize nat
  | SetTextColor epd_color
  | FillRect int int int int epd_color
  | SetCursor int int
  | Print string
  | Display

type_synonym display = "display_op list"

section \<open>The storage adapter (sd_card.cpp)\<close>

datatype file_type = DT_REG | DT_DIR | DT_UNKNOWN

record dirent =
  d_name :: string
  d_type :: file_type

text \<open>
  The card: the mount flag \<open>s_mounted\<close>, the directories that \<open>opendir\<close> can open with
  the entries \<open>readdir\<close> yields in order, and the files that \<open>fopen\<close> can open with
  their bytes.
\<close>

record sd_card =
  s_mounted :: bool
  sd_dirs :: "string \<rightharpoonup> dirent list"
  sd_files :: "string \<rightharpoonup> 8 word list"

text \<open>The extension loop of \<open>scanForImages\<close>: the first matching extension breaks out.\<close>

fun isImage :: "string \<Rightarrow> string list \<Rightarrow> bool" where
  "isImage filename [] = False"
| "isImage filename (e # es) =
     (if length filename \<ge> length e
         \<and> drop (length filename - length e) filename = e
      then True
      else isImage filename es)"

text \<open>
  The \<open>readdir\<close> loop. \<open>imageFiles\<close> is the vector filled so far; the counter
  \<open>count\<close> of the source always equals its length (the vector is cleared on entry and
  both grow together), so the loop guard reads the length.
\<close>

fun scan_loop :: "string \<Rightarrow> dirent list \<Rightarrow> string list \<Rightarrow> string list" where
  "scan_loop directory [] imageFiles = imageFiles"
| "scan_loop directory (entry # rest) imageFiles =
     (if \<not> length imageFiles < MAX_IMAGE_FILES then imageFiles
      else if (case d_name entry of [] \<Rightarrow> False | c # _ \<Rightarrow> c = CHR ''.'')
        then scan_loop directory rest imageFiles
      else if isImage (d_name entry) IMAGE_EXTENSIONS
        then scan_loop directory rest (imageFiles @ [directory @ ''/'' @ d_name entry])
      else scan_loop directory rest imageFiles)"

text \<open>\<open>scanForImages\<close> yields the vector; its return value is the vector's length.\<close>

definition scanForImages :: "sd_card \<Rightarrow> string \<Rightarrow> string list" where
  "scanForImages sd directory =
     (if \<not> s_mounted sd then []
      else case sd_dirs sd directory of
             None \<Rightarrow> []
           | Some entries \<Rightarrow> scan_loop directory entries [])"

text \<open>\<open>getFileSize\<close>: \<open>ftell\<close>'s result converted to \<open>int32_t\<close>.\<close>

definition getFileSize :: "sd_card \<Rightarrow> string \<Rightarrow> int" where
  "getFileSize sd filepath =
     (if \<not> s_mounted sd then - 1
      else case sd_files sd filepath of
             None \<Rightarrow> - 1
           | Some bytes \<Rightarrow> sint (word_of_nat (length bytes) :: 32 word))"

text \<open>
  \<open>readFile\<close> into a buffer that is never null here: the number of bytes read, converted
  to \<open>int32_t\<close>, and the bytes stored in the buffer.
\<close>

definition readFile :: "sd_card \<Rightarrow> string \<Rightarrow> nat \<Rightarrow> int \<times> 8 word list" where
  "readFile sd filepath maxSize =
     (if \<not> s_mounted sd \<or> maxSize = 0 then (- 1, [])
      else case sd_files sd filepath of
             None \<Rightarrow> (- 1, [])
           | Some bytes \<Rightarrow>
               (sint (word_of_nat (length (take maxSize bytes)) :: 32 word),
                take maxSize bytes))"

section \<open>The bitmap loader (image_loader.cpp)\<close>

text \<open>
  The packed header of 54 bytes. \<open>width\<close> and \<open>height\<close> are \<open>int32_t\<close>: their sign
  is read with \<open>sint\<close>.
\<close>

record BMPHeader =
  signature :: "16 word"
  fileSize :: "32 word"
  reserved1 :: "16 word"
  reserved2 :: "16 word"
  dataOffset :: "32 word"
  headerSize :: "32 word"
  width :: "32 word"
  height :: "32 word"
  planes :: "16 word"
  bitsPerPixel :: "16 word"
  compression :: "32 word"
  imageSize :: "32 word"
  xPixelsPerM :: "32 word"
  yPixelsPerM :: "32 word"
  colorsUsed :: "32 word"
  colorsImportant :: "32 word"

definition sizeof_BMPHeader :: nat where
  "sizeof_BMPHeader = 54"

text \<open>Little-endian fields of the buffer, as the target reads them through the cast.\<close>

definition rd16 :: "8 word list \<Rightarrow> nat \<Rightarrow> 16 word" where
  "rd16 buf off = ucast (buf ! off) OR push_bit 8 (ucast (buf ! (off + 1)))"

definition rd32 :: "8 word list \<Rightarrow> nat \<Rightarrow> 32 word" where
  "rd32 buf off =
     ucast (buf ! off) OR push_bit 8 (ucast (buf ! (off + 1)))
       OR push_bit 16 (ucast (buf ! (off + 2))) OR push_bit 24 (ucast (buf ! (off + 3)))"

text \<open>The cast of the buffer to the header; only used on buffers of 54 bytes or more.\<close>

definition parse_header :: "8 word list \<Rightarrow> BMPHeader" where
  "parse_header buf =
     \<lparr> signature = rd16 buf 0, fileSize = rd32 buf 2,
       reserved1 = rd16 buf 6, reserved2 = rd16 buf 8,
       dataOffset = rd32 buf 10, headerSize = rd32 buf 14,
       width = rd32 buf 18, height = rd32 buf 22,
       planes = rd16 buf 26, bitsPerPixel = rd16 buf 28,
       compression = rd32 buf 30, imageSize = rd32 buf 34,
       xPixelsPerM = rd32 buf 38, yPixelsPerM = rd32 buf 42,
       colorsUsed = rd32 buf 46, colorsImportant = rd32 buf 50 \<rparr>"

text \<open>
  \<open>rgbToEinkColor\<close>: the weighted sum is computed in \<open>int\<close> and stored in a
  \<open>uint8_t\<close>.
\<close>

definition rgbToEinkColor :: "8 word \<Rightarrow> 8 word \<Rightarrow> 8 word \<Rightarrow> epd_color" where
  "rgbToEinkColor r g b =
     (let gray = (word_of_int ((uint r * 30 + uint g * 59 + uint b * 11) div 100) :: 8 word);
          isRed = (r > 128 \<and> r > g \<and> r > b)
      in if gray < 85 then EPD_BLACK
         else if isRed \<and> gray > 100 then EPD_RED
         else EPD_WHITE)"

text \<open>
  \<open>abs\<close> on an \<open>int32_t\<close>, stored in a \<open>uint32_t\<close>. For the least value the
  source's result is undefined; the two's complement negation is taken here.
\<close>

definition abs32 :: "32 word \<Rightarrow> 32 word" where
  "abs32 v = (if sint v < 0 then - v else v)"

text \<open>The three row sizes, in \<open>uint32_t\<close> arithmetic.\<close>

definition rowSize24 :: "32 word \<Rightarrow> 32 word" where
  "rowSize24 imgWidth = ((imgWidth * 3 + 3) div 4) * 4"

definition rowSize8 :: "32 word \<Rightarrow> 32 word" where
  "rowSize8 imgWidth = ((imgWidth + 3) div 4) * 4"

definition rowSize1 :: "32 word \<Rightarrow> 32 word" where
  "rowSize1 imgWidth = ((imgWidth + 7) div 8 + 3) div 4 * 4"

text \<open>
  The single-precision computations of the loader are not modelled. Their results enter
  as a parameter: for the image's width and height, the scaled width and height
  (\<open>static_cast<uint32_t>(imgWidth * scale)\<close>, likewise the height) and the source
  column and row of a destination column and row (\<open>static_cast<uint32_t>(x / scale)\<close>).
\<close>

record scaling =
  scaledWidth :: "32 word"
  scaledHeight :: "32 word"
  srcCol :: "32 word \<Rightarrow> 32 word"
  srcRow :: "32 word \<Rightarrow> 32 word"

type_synonym scaler = "32 word \<Rightarrow> 32 word \<Rightarrow> scaling"

text \<open>
  \<open>pixelData[i]\<close> with \<open>pixelData = fileBuffer + dataOffset\<close>. The source reads
  without a bounds check. A read outside the buffer is undefined in the source and gives
  whatever byte lies at that place; that byte is the parameter \<open>past\<close>, asked at the
  position counted from the start of the buffer.
\<close>

type_synonym memory = "nat \<Rightarrow> 8 word"

definition pixelData :: "memory \<Rightarrow> 8 word list \<Rightarrow> 32 word \<Rightarrow> 32 word \<Rightarrow> 8 word" where
  "pixelData past fileBuffer off i =
     (if unat off + unat i < length fileBuffer
      then fileBuffer ! (unat off + unat i) else past (unat off + unat i))"

text \<open>The body of the inner loop for each depth: the colour drawn for a source pixel.\<close>

definition pixel24 ::
  "memory \<Rightarrow> 8 word list \<Rightarrow> 32 word \<Rightarrow> 32 word \<Rightarrow> 32 word \<Rightarrow> 32 word \<Rightarrow> epd_color" where
  "pixel24 past fileBuffer off rowSize srcY srcX =
     (let pixelOffset = srcY * rowSize + srcX * 3;
          b = pixelData past fileBuffer off pixelOffset;
          g = pixelData past fileBuffer off (pixelOffset + 1);
          r = pixelData past fileBuffer off (pixelOffset + 2)
      in rgbToEinkColor r g b)"

definition pixel8 ::
  "memory \<Rightarrow> 8 word list \<Rightarrow> 32 word \<Rightarrow> 32 word \<Rightarrow> 32 word \<Rightarrow> 32 word \<Rightarrow> epd_color" where
  "pixel8 past fileBuffer off rowSize srcY srcX =
     (let gray = pixelData past fileBuffer off (srcY * rowSize + srcX)
      in if gray < 128 then EPD_BLACK else EPD_WHITE)"

definition pixel1 ::
  "memory \<Rightarrow> 8 word list \<Rightarrow> 32 word \<Rightarrow> 32 word \<Rightarrow> 32 word \<Rightarrow> 32 word \<Rightarrow> epd_color" where
  "pixel1 past fileBuffer off rowSize srcY srcX =
     (let byteOffset = srcY * rowSize + (srcX div 8);
          bitOffset = (ucast (7 - (srcX mod 8)) :: 8 word);
          bit = drop_bit (unat bitOffset) (pixelData past fileBuffer off byteOffset) AND 1
      in if bit \<noteq> 0 then EPD_BLACK else EPD_WHITE)"

text \<open>
  The two nested loops, which the source writes once per depth with the same shape:
  rows \<open>y\<close> below the scaled height, columns \<open>x\<close> below the scaled width, the source
  row flipped for a bottom-up image, one \<open>drawPixel\<close> per iteration. \<open>px\<close> is the
  loop body of the depth.
\<close>

definition pixel_loops ::
  "scaling \<Rightarrow> bool \<Rightarrow> 32 word \<Rightarrow> 32 word \<Rightarrow> 32 word
     \<Rightarrow> (32 word \<Rightarrow> 32 word \<Rightarrow> epd_color) \<Rightarrow> display" where
  "pixel_loops sc topDown imgHeight offsetX offsetY px =
     concat (map (\<lambda>y.
        let srcY0 = srcRow sc (word_of_nat y);
            srcY = (if \<not> topDown then imgHeight - 1 - srcY0 else srcY0)
        in map (\<lambda>x.
             let srcX = srcCol sc (word_of_nat x)
             in DrawPixel (offsetX + word_of_nat x) (offsetY + word_of_nat y) (px srcY srcX))
           [0..<unat (scaledWidth sc)])
        [0..<unat (scaledHeight sc)])"

datatype load_error =
    NullArgument
  | InvalidFileSize
  | ReadIncomplete
  | InvalidSignature
  | UnsupportedBpp

text \<open>
  The \<open>drawPixel\<close> calls of \<open>loadAndDisplayBMP\<close>, given the results \<open>sc\<close> of its
  float computations: the centring offsets and the loops of the depth. A depth with no
  loop (4) draws nothing.
\<close>

definition draw_pixels :: "scaling \<Rightarrow> memory \<Rightarrow> BMPHeader \<Rightarrow> 8 word list \<Rightarrow> display" where
  "draw_pixels sc past header fileBuffer =
     (let imgWidth = abs32 (width header);
          imgHeight = abs32 (height header);
          topDown = (sint (height header) < 0);
          off = dataOffset header;
          offsetX = (ucast DISPLAY_WIDTH - scaledWidth sc) div 2;
          offsetY = (ucast DISPLAY_HEIGHT - scaledHeight sc) div 2
      in if bitsPerPixel header = 24 then
           pixel_loops sc topDown imgHeight offsetX offsetY
             (pixel24 past fileBuffer off (rowSize24 imgWidth))
         else if bitsPerPixel header = 8 then
           pixel_loops sc topDown imgHeight offsetX offsetY
             (pixel8 past fileBuffer off (rowSize8 imgWidth))
         else if bitsPerPixel header = 1 then
           pixel_loops sc topDown imgHeight offsetX offsetY
             (pixel1 past fileBuffer off (rowSize1 imgWidth))
         else [])"

text \<open>
  The part of \<open>loadAndDisplayBMP\<close> after the checks: the buffer is cleared, the float
  code runs on the absolute dimensions, the pixels are drawn, the panel is refreshed.
  Nothing after the depth check returns \<open>false\<close>.
\<close>

definition render_bmp ::
  "scaler \<Rightarrow> memory \<Rightarrow> BMPHeader \<Rightarrow> 8 word list \<Rightarrow> display \<Rightarrow> display" where
  "render_bmp fl past header fileBuffer disp =
     (let imgWidth = abs32 (width header);
          imgHeight = abs32 (height header);
          sc = fl imgWidth imgHeight
      in disp @ [ClearBuffer] @ draw_pixels sc past header fileBuffer @ [Display])"

text \<open>
  \<open>loadAndDisplayBMP\<close>. A null pointer is \<open>None\<close>. \<open>Inr\<close> is the return value
  \<open>true\<close> with the panel after the calls; \<open>Inl\<close> is \<open>false\<close> with the branch that
  returned it.
\<close>

definition loadAndDisplayBMP ::
  "scaler \<Rightarrow> memory \<Rightarrow> sd_card \<Rightarrow> string option \<Rightarrow> display option
     \<Rightarrow> load_error + display" where
  "loadAndDisplayBMP fl past sd filepath disp =
     (case (filepath, disp) of
        (Some path, Some d) \<Rightarrow>
          (let fsize = getFileSize sd path
           in if fsize < 0 \<or> fsize < int sizeof_BMPHeader then Inl InvalidFileSize
              else
                (let (bytesRead, fileBuffer) = readFile sd path (nat fsize)
                 in if bytesRead \<noteq> fsize then Inl ReadIncomplete
                    else
                      (let header = parse_header fileBuffer
                       in if signature header \<noteq> 0x4D42 then Inl InvalidSignature
                          else if bitsPerPixel header \<noteq> 1 \<and> bitsPerPixel header \<noteq> 4
                                  \<and> bitsPerPixel header \<noteq> 8 \<and> bitsPerPixel header \<noteq> 24
                            then Inl UnsupportedBpp
                          else Inr (render_bmp fl past header fileBuffer d))))
      | _ \<Rightarrow> Inl NullArgument)"

text \<open>
  The scaling of \<open>loadAndDisplayBMP\<close> in exact arithmetic: \<open>scale\<close> is the smaller of
  \<open>128 / imgWidth\<close> and \<open>296 / imgHeight\<close>, and the casts truncate. It is what the
  single-precision code computes wherever that computation does not round, as in the
  examples of this file (scale 1, or a scaled side of 0), and is used for examples
  only: where the float code rounds, the two differ (for a width of 82 the float code
  gives a scaled width of 127, exact arithmetic 128), and every general statement below
  is about an arbitrary \<open>scaler\<close>. With both dimensions zero the source casts a
  NaN; no example has that.
\<close>

definition exact_scaler :: scaler where
  "exact_scaler imgWidth imgHeight =
     (let w = unat imgWidth; h = unat imgHeight
      in if 128 * h \<le> 296 * w
         then \<lparr> scaledWidth = 128, scaledHeight = word_of_nat (h * 128 div w),
                srcCol = (\<lambda>x. word_of_nat (unat x * w div 128)),
                srcRow = (\<lambda>y. word_of_nat (unat y * w div 128)) \<rparr>
         else \<lparr> scaledWidth = word_of_nat (w * 296 div h), scaledHeight = 296,
                srcCol = (\<lambda>x. word_of_nat (unat x * h div 296)),
                srcRow = (\<lambda>y. word_of_nat (unat y * h div 296)) \<rparr>)"

section \<open>The slideshow controller (slideshow.cpp)\<close>

datatype State = INIT | SCANNING | DISPLAYING | AUTO_ADVANCE | ERROR | SLEEPING

datatype SlideshowButtonId = UP | SELECT | DOWN

record SlideshowButtonEvent =
  id_evt :: SlideshowButtonId
  pressed :: bool

text \<open>The lines the controller writes to the log.\<close>

datatype log_line =
    LogDisplaying nat nat string
  | LogLoadFailed
  | LogAutoAdvance bool
  | LogInactivity

text \<open>
  The file-scope variables of slideshow.cpp, with the panel \<open>g_display\<close> as the calls
  made on it and the log written so far. \<open>size_t\<close> is \<open>nat\<close>: the index is only
  incremented below the vector's size, which is at most \<open>MAX_IMAGE_FILES\<close>.
  \<open>TickType_t\<close> is an unsigned 32-bit counter.
\<close>

record slideshow =
  s_state :: State
  s_imageFiles :: "string list"
  s_currentImageIndex :: nat
  s_autoAdvance :: bool
  s_lastActivityTick :: "32 word"
  s_lastAutoAdvanceTick :: "32 word"
  g_display :: display
  s_log :: "log_line list"

text \<open>
  The controller sees the loader as a call on a path and the panel that gives the return
  value and the panel afterwards.
\<close>

type_synonym loader = "string \<Rightarrow> display \<Rightarrow> bool \<times> display"

text \<open>
  \<open>loadAndDisplayBMP\<close> as the controller calls it, with the panel after the call:
  untouched when the loader returned before \<open>clearBuffer\<close>, which is every
  return of \<open>false\<close>.
\<close>

definition bmp_loader :: "scaler \<Rightarrow> memory \<Rightarrow> sd_card \<Rightarrow> loader" where
  "bmp_loader fl past sd path d =
     (case loadAndDisplayBMP fl past sd (Some path) (Some d) of
        Inr d' \<Rightarrow> (True, d')
      | Inl e \<Rightarrow> (False, d))"

function displayCurrentImage :: "loader \<Rightarrow> slideshow \<Rightarrow> slideshow" where
  "displayCurrentImage ld s =
     (if s_imageFiles s = [] \<or> s_currentImageIndex s \<ge> length (s_imageFiles s) then s
      else if fst (ld (s_imageFiles s ! s_currentImageIndex s) (g_display s))
        then s\<lparr> g_display := snd (ld (s_imageFiles s ! s_currentImageIndex s) (g_display s)),
                s_log := s_log s @ [LogDisplaying (s_currentImageIndex s + 1)
                           (length (s_imageFiles s)) (s_imageFiles s ! s_currentImageIndex s)] \<rparr>
      else if (s_currentImageIndex s + 1) mod length (s_imageFiles s) \<noteq> 0
        then displayCurrentImage ld
               (s\<lparr> g_display := snd (ld (s_imageFiles s ! s_currentImageIndex s) (g_display s)),
                   s_log := s_log s @ [LogDisplaying (s_currentImageIndex s + 1)
                           (length (s_imageFiles s)) (s_imageFiles s ! s_currentImageIndex s),
                           LogLoadFailed],
                   s_currentImageIndex :=
                     (s_currentImageIndex s + 1) mod length (s_imageFiles s) \<rparr>)
      else s\<lparr> g_display := snd (ld (s_imageFiles s ! s_currentImageIndex s) (g_display s)),
              s_log := s_log s @ [LogDisplaying (s_currentImageIndex s + 1)
                           (length (s_imageFiles s)) (s_imageFiles s ! s_currentImageIndex s),
                           LogLoadFailed],
              s_currentImageIndex :=
                (s_currentImageIndex s + 1) mod length (s_imageFiles s) \<rparr>)"
  by pat_completeness auto
termination
proof (relation "measure (\<lambda>(ld, s). length (s_imageFiles s) - s_currentImageIndex s)")
  show "wf (measure (\<lambda>(ld, s). length (s_imageFiles s) - s_currentImageIndex s))"
    by simp
next
  fix ld :: loader and s :: slideshow
  assume a: "\<not> (s_imageFiles s = [] \<or> length (s_imageFiles s) \<le> s_currentImageIndex s)"
    and nz: "(s_currentImageIndex s + 1) mod length (s_imageFiles s) \<noteq> 0"
  from a have lt: "s_currentImageIndex s < length (s_imageFiles s)"
    by simp
  have "s_currentImageIndex s + 1 \<noteq> length (s_imageFiles s)"
    using nz by auto
  with lt have "s_currentImageIndex s + 1 < length (s_imageFiles s)"
    by simp
  then show "((ld, s\<lparr> g_display := snd (ld (s_imageFiles s ! s_currentImageIndex s) (g_display s)),
                   s_log := s_log s @ [LogDisplaying (s_currentImageIndex s + 1)
                           (length (s_imageFiles s)) (s_imageFiles s ! s_currentImageIndex s),
                           LogLoadFailed],
                   s_currentImageIndex :=
                     (s_currentImageIndex s + 1) mod length (s_imageFiles s) \<rparr>), (ld, s))
             \<in> measure (\<lambda>(ld, s). length (s_imageFiles s) - s_currentImageIndex s)"
    by simp
qed

declare displayCurrentImage.simps [simp del]

text \<open>
  \<open>handleButton\<close>. \<open>tick\<close> is the value \<open>xTaskGetTickCount\<close> returns in the branch
  taken: after the render for UP and DOWN, before the indicator for SELECT. The delay of
  one second has no effect on the variables.
\<close>

definition handleButton ::
  "loader \<Rightarrow> 32 word \<Rightarrow> SlideshowButtonEvent \<Rightarrow> slideshow \<Rightarrow> slideshow" where
  "handleButton ld tick evt s =
     (if s_state s \<noteq> DISPLAYING then s
      else case id_evt evt of
        UP \<Rightarrow>
          (if length (s_imageFiles s) > 0
           then (displayCurrentImage ld
                   (s\<lparr> s_currentImageIndex :=
                         (if s_currentImageIndex s = 0 then length (s_imageFiles s) - 1
                          else s_currentImageIndex s - 1) \<rparr>))
                \<lparr> s_lastAutoAdvanceTick := tick \<rparr>
           else s)
      | DOWN \<Rightarrow>
          (if length (s_imageFiles s) > 0
           then (displayCurrentImage ld
                   (s\<lparr> s_currentImageIndex :=
                         (s_currentImageIndex s + 1) mod length (s_imageFiles s) \<rparr>))
                \<lparr> s_lastAutoAdvanceTick := tick \<rparr>
           else s)
      | SELECT \<Rightarrow>
          displayCurrentImage ld
            (s\<lparr> s_autoAdvance := \<not> s_autoAdvance s,
                s_lastAutoAdvanceTick := tick,
                s_log := s_log s @ [LogAutoAdvance (\<not> s_autoAdvance s)],
                g_display := g_display s @
                  [SetTextSize 2, SetTextColor EPD_BLACK, FillRect 0 0 128 30 EPD_WHITE,
                   SetCursor 10 10,
                   Print (if \<not> s_autoAdvance s then ''AUTO'' else ''MANUAL''),
                   Display] \<rparr>))"

text \<open>
  One pass of the loop of \<open>Slideshow::task\<close>. The four reads of the tick counter are
  inputs, as is the result of the wait on the queue (\<open>None\<close>: nothing arrived within
  the poll window). \<open>pdMS_TO_TICKS\<close> depends on the tick rate of the build, which is not
  in the sources: the periods in ticks are parameters. The pass yields the variables and
  whether deep sleep was entered, which ends the task.
\<close>

record tick_reads =
  tick_activity :: "32 word"
  tick_handler :: "32 word"
  tick_auto :: "32 word"
  tick_idle :: "32 word"

record periods =
  auto_advance_ticks :: "32 word"
  inactivity_ticks :: "32 word"

definition task_pass ::
  "loader \<Rightarrow> periods \<Rightarrow> tick_reads \<Rightarrow> SlideshowButtonEvent option \<Rightarrow> slideshow
     \<Rightarrow> slideshow \<times> bool" where
  "task_pass ld pd tk received s =
     (let s1 = (case received of
                  None \<Rightarrow> s
                | Some btnEvt \<Rightarrow>
                    (if pressed btnEvt
                     then handleButton ld (tick_handler tk) btnEvt
                            (s\<lparr> s_lastActivityTick := tick_activity tk \<rparr>)
                     else s));
          s2 = (if s_state s1 = DISPLAYING \<and> s_autoAdvance s1
                   \<and> tick_auto tk - s_lastAutoAdvanceTick s1 \<ge> auto_advance_ticks pd
                then (displayCurrentImage ld
                        (s1\<lparr> s_currentImageIndex :=
                               (s_currentImageIndex s1 + 1) mod length (s_imageFiles s1) \<rparr>))
                     \<lparr> s_lastAutoAdvanceTick := tick_auto tk \<rparr>
                else s1)
      in if tick_idle tk - s_lastActivityTick s2 \<ge> inactivity_ticks pd
         then (s2\<lparr> s_log := s_log s2 @ [LogInactivity],
                   g_display := g_display s2 @
                     [ClearBuffer, SetCursor 20 140, Print ''Sleeping...'', Display] \<rparr>, True)
         else (s2, False))"

text \<open>The loop: passes are made until one enters deep sleep.\<close>

fun task ::
  "loader \<Rightarrow> periods \<Rightarrow> (tick_reads \<times> SlideshowButtonEvent option) list \<Rightarrow> slideshow
     \<Rightarrow> slideshow" where
  "task ld pd [] s = s"
| "task ld pd ((tk, received) # rest) s =
     (case task_pass ld pd tk received s of
        (s', asleep) \<Rightarrow> if asleep then s' else task ld pd rest s')"

section \<open>Example files, card and controller states\<close>

text \<open>Bytes of a bitmap file: the 54-byte header in little-endian order, then the pixels.\<close>

definition le16 :: "16 word \<Rightarrow> 8 word list" where
  "le16 v = [ucast v, ucast (drop_bit 8 v)]"

definition le32 :: "32 word \<Rightarrow> 8 word list" where
  "le32 v = [ucast v, ucast (drop_bit 8 v), ucast (drop_bit 16 v), ucast (drop_bit 24 v)]"

definition bmp_bytes ::
  "32 word \<Rightarrow> 32 word \<Rightarrow> 16 word \<Rightarrow> 32 word \<Rightarrow> 8 word list \<Rightarrow> 8 word list" where
  "bmp_bytes w h bpp cmpr pixels =
     [0x42, 0x4D] @ le32 (word_of_nat (54 + length pixels)) @ le16 0 @ le16 0 @ le32 54
       @ le32 40 @ le32 w @ le32 h @ le16 1 @ le16 bpp @ le32 cmpr
       @ le32 (word_of_nat (length pixels)) @ le32 0 @ le32 0 @ le32 0 @ le32 0 @ pixels"

text \<open>Memory past the file buffer that holds zero bytes.\<close>

definition blank_memory :: memory where
  "blank_memory = (\<lambda>i. 0)"

text \<open>128 by 1, 8 bits per pixel, every pixel byte 100.\<close>

definition gray_bmp :: "8 word list" where
  "gray_bmp = bmp_bytes 128 1 8 0 (replicate 128 100)"

text \<open>The calls that draw that image: 128 black pixels on row 147.\<close>

definition black_row :: display where
  "black_row = map (\<lambda>x. DrawPixel (word_of_nat x) 147 EPD_BLACK) [0..<128]"

text \<open>The same image with compression code 1 in the header.\<close>

definition rle_bmp :: "8 word list" where
  "rle_bmp = bmp_bytes 128 1 8 1 (replicate 128 100)"

text \<open>1 by 1, 4 bits per pixel.\<close>

definition four_bmp :: "8 word list" where
  "four_bmp = bmp_bytes 1 1 4 0 [0, 0, 0, 0]"

text \<open>Width 0, height 1, 24 bits per pixel, no pixel data.\<close>

definition flat_bmp :: "8 word list" where
  "flat_bmp = bmp_bytes 0 1 24 0 []"

text \<open>Width 1, height 0, 24 bits per pixel, no pixel data.\<close>

definition thin_bmp :: "8 word list" where
  "thin_bmp = bmp_bytes 1 0 24 0 []"

text \<open>Width 1431655765, height 1, 24 bits per pixel, no pixel data.\<close>

definition wide_bmp :: "8 word list" where
  "wide_bmp = bmp_bytes 1431655765 1 24 0 []"

definition demo_listing :: "dirent list" where
  "demo_listing =
     [\<lparr> d_name = ''.'', d_type = DT_DIR \<rparr>,
      \<lparr> d_name = ''..'', d_type = DT_DIR \<rparr>,
      \<lparr> d_name = ''a.bmp'', d_type = DT_REG \<rparr>,
      \<lparr> d_name = ''b.BMP'', d_type = DT_REG \<rparr>,
      \<lparr> d_name = ''readme.txt'', d_type = DT_REG \<rparr>,
      \<lparr> d_name = ''.hidden'', d_type = DT_REG \<rparr>,
      \<lparr> d_name = ''album.bmp'', d_type = DT_DIR \<rparr>]"

text \<open>
  A mounted card. \<open>a.bmp\<close> and \<open>c.bmp\<close> are too short to hold a header;
  \<open>b.BMP\<close> is the gray image.
\<close>

definition demo_card :: sd_card where
  "demo_card =
     \<lparr> s_mounted = True,
       sd_dirs = [''/sdcard/images'' \<mapsto> demo_listing],
       sd_files =
         [''/sdcard/images/a.bmp'' \<mapsto> [0x42, 0x4D],
          ''/sdcard/images/b.BMP'' \<mapsto> gray_bmp,
          ''/sdcard/images/c.bmp'' \<mapsto> [],
          ''/sdcard/images/rle.bmp'' \<mapsto> rle_bmp,
          ''/sdcard/images/four.bmp'' \<mapsto> four_bmp,
          ''/sdcard/images/flat.bmp'' \<mapsto> flat_bmp,
          ''/sdcard/images/thin.bmp'' \<mapsto> thin_bmp,
          ''/sdcard/images/wide.bmp'' \<mapsto> wide_bmp] \<rparr>"

text \<open>The controller showing the first of three images, with nothing drawn or logged.\<close>

definition demo_show :: slideshow where
  "demo_show =
     \<lparr> s_state = DISPLAYING,
       s_imageFiles = [''/sdcard/images/a.bmp'', ''/sdcard/images/b.BMP'',
                       ''/sdcard/images/c.bmp''],
       s_currentImageIndex = 0,
       s_autoAdvance = False,
       s_lastActivityTick = 0,
       s_lastAutoAdvanceTick = 0,
       g_display = [],
       s_log = [] \<rparr>"

text \<open>The same controller with three images that all load.\<close>

definition demo_good :: slideshow where
  "demo_good =
     demo_show\<lparr> s_imageFiles := [''/sdcard/images/b.BMP'', ''/sdcard/images/rle.bmp'',
                                    ''/sdcard/images/four.bmp''] \<rparr>"

text \<open>That controller with auto-advance switched on.\<close>

definition demo_auto :: slideshow where
  "demo_auto = demo_good\<lparr> s_autoAdvance := True \<rparr>"

text \<open>
  The controller of \<open>demo_show\<close> after the first render and one press of DOWN, both
  with the loader reading \<open>demo_card\<close>.
\<close>

definition demo_wrapped :: slideshow where
  "demo_wrapped =
     handleButton (bmp_loader exact_scaler blank_memory demo_card) 5
       \<lparr> id_evt = DOWN, pressed = True \<rparr>
       (displayCurrentImage (bmp_loader exact_scaler blank_memory demo_card) demo_show)"

text \<open>
  Periods and clock readings for one pass of the task, and three passes that receive
  DOWN, DOWN and UP.
\<close>

definition demo_periods :: periods where
  "demo_periods = \<lparr> auto_advance_ticks = 1000, inactivity_ticks = 30000 \<rparr>"

definition demo_ticks :: tick_reads where
  "demo_ticks =
     \<lparr> tick_activity = 2000, tick_handler = 2500, tick_auto = 3000, tick_idle = 3000 \<rparr>"

definition demo_presses :: "(tick_reads \<times> SlideshowButtonEvent option) list" where
  "demo_presses =
     [(demo_ticks, Some \<lparr> id_evt = DOWN, pressed = True \<rparr>),
      (demo_ticks, Some \<lparr> id_evt = DOWN, pressed = True \<rparr>),
      (demo_ticks, Some \<lparr> id_evt = UP, pressed = True \<rparr>)]"

text \<open>A card that is not mounted: every load from it fails.\<close>

definition dead_card :: sd_card where
  "dead_card = demo_card\<lparr> s_mounted := False \<rparr>"

section \<open>Enumeration as the specification words it\<close>

text \<open>
  The specification's enumeration, for comparison with \<open>scanForImages\<close>: every
  regular file directly inside the directory whose name ends with one of the recognised
  extensions, dot-prefixed entries skipped, at most \<open>MAX_IMAGE_FILES\<close> paths.
\<close>

definition enumerate_spec :: "sd_card \<Rightarrow> string \<Rightarrow> string list" where
  "enumerate_spec sd directory =
     (case sd_dirs sd directory of
        None \<Rightarrow> []
      | Some entries \<Rightarrow>
          take MAX_IMAGE_FILES
            (map (\<lambda>e. directory @ ''/'' @ d_name e)
               (filter (\<lambda>e. d_type e = DT_REG
                          \<and> \<not> prefix ''.'' (d_name e)
                          \<and> (suffix ''.bmp'' (d_name e) \<or> suffix ''.BMP'' (d_name e)))
                  entries)))"

section \<open>The loader up to the depth check\<close>

lemma sint32_small:
  fixes v :: "32 word"
  assumes "unat v < 2 ^ 31"
  shows "sint v = int (unat v)"
proof -
  have u0: "0 \<le> uint v" by simp
  have lt: "uint v < 2 ^ 31"
    unfolding uint_nat using assms of_nat_less_iff [of "unat v" "2 ^ 31", where ?'a = int] by simp
  have "sint v = signed_take_bit 31 (uint v)"
    by (simp add: sint_uint)
  also have "\<dots> = (uint v + 2 ^ 31) mod 2 ^ 32 - 2 ^ 31"
    by (simp add: signed_take_bit_eq_take_bit_shift take_bit_eq_mod)
  also have "(uint v + 2 ^ 31) mod 2 ^ 32 = uint v + 2 ^ 31"
    using u0 lt by (simp add: mod_pos_pos_trivial)
  finally have "sint v = uint v" by simp
  then show ?thesis unfolding uint_nat .
qed

lemma sint_length32:
  assumes "n < 2 ^ 31"
  shows "sint (word_of_nat n :: 32 word) = int n"
proof -
  have "unat (word_of_nat n :: 32 word) = n"
    using assms by (simp add: unat_of_nat)
  with assms show ?thesis by (simp add: sint32_small)
qed

lemma getFileSize_file:
  assumes "s_mounted sd" and "sd_files sd path = Some buf" and "length buf < 2 ^ 31"
  shows "getFileSize sd path = int (length buf)"
  using assms by (simp add: getFileSize_def sint_length32)

lemma readFile_file:
  assumes "s_mounted sd" and "sd_files sd path = Some buf" and "length buf < 2 ^ 31"
    and "0 < length buf"
  shows "readFile sd path (length buf) = (int (length buf), buf)"
  using assms by (simp add: readFile_def sint_length32)

lemma load_after_read:
  assumes "s_mounted sd" and "sd_files sd path = Some buf"
    and "54 \<le> length buf" and "length buf < 2 ^ 31"
  shows "loadAndDisplayBMP fl past sd (Some path) (Some d) =
     (if signature (parse_header buf) \<noteq> 0x4D42 then Inl InvalidSignature
      else if bitsPerPixel (parse_header buf) \<noteq> 1 \<and> bitsPerPixel (parse_header buf) \<noteq> 4
              \<and> bitsPerPixel (parse_header buf) \<noteq> 8 \<and> bitsPerPixel (parse_header buf) \<noteq> 24
        then Inl UnsupportedBpp
      else Inr (render_bmp fl past (parse_header buf) buf d))"
proof -
  have g: "getFileSize sd path = int (length buf)"
    using assms by (simp add: getFileSize_file)
  have "0 < length buf"
    using assms(3) by linarith
  then have r: "readFile sd path (length buf) = (int (length buf), buf)"
    using assms by (simp add: readFile_file)
  show ?thesis
    using assms(3) by (simp add: loadAndDisplayBMP_def g r sizeof_BMPHeader_def Let_def)
qed

lemma load_too_short:
  assumes "sd_files sd path = Some buf" and "length buf < 54"
  shows "loadAndDisplayBMP fl past sd (Some path) (Some d) = Inl InvalidFileSize"
proof (cases "s_mounted sd")
  case True
  have "getFileSize sd path = int (length buf)"
    using assms True by (simp add: getFileSize_file)
  with assms show ?thesis
    by (simp add: loadAndDisplayBMP_def sizeof_BMPHeader_def)
next
  case False
  then show ?thesis by (simp add: loadAndDisplayBMP_def getFileSize_def)
qed

section \<open>The pixel loops and the renderer\<close>

lemma pixel_loops_8:
  "pixel_loops sc td H ox oy (pixel8 past buf off rs) =
     concat (map (\<lambda>y. map (\<lambda>x.
         DrawPixel (ox + word_of_nat x) (oy + word_of_nat y)
           (if pixelData past buf off
                 ((if \<not> td then H - 1 - srcRow sc (word_of_nat y)
                   else srcRow sc (word_of_nat y)) * rs + srcCol sc (word_of_nat x)) < 128
            then EPD_BLACK else EPD_WHITE))
       [0..<unat (scaledWidth sc)]) [0..<unat (scaledHeight sc)])"
  by (simp add: pixel_loops_def pixel8_def Let_def)

lemma draw_pixels_8:
  assumes "bitsPerPixel h = 8"
  shows "draw_pixels sc past h buf =
     pixel_loops sc (sint (height h) < 0) (abs32 (height h))
       ((ucast DISPLAY_WIDTH - scaledWidth sc) div 2)
       ((ucast DISPLAY_HEIGHT - scaledHeight sc) div 2)
       (pixel8 past buf (dataOffset h) (rowSize8 (abs32 (width h))))"
  using assms by (simp add: draw_pixels_def Let_def)

lemma render_bmp_draw:
  "render_bmp fl past h buf d =
     d @ [ClearBuffer] @ draw_pixels (fl (abs32 (width h)) (abs32 (height h))) past h buf
       @ [Display]"
  by (simp add: render_bmp_def Let_def)

lemma length_bmp_bytes: "length (bmp_bytes w h bpp c px) = 54 + length px"
  by (simp add: bmp_bytes_def le16_def le32_def)

lemma bmp_bytes_nth_pixel: "bmp_bytes w h bpp c px ! (54 + i) = px ! i"
  by (simp add: bmp_bytes_def nth_append le16_def le32_def)

lemma exact_scaler_128_1:
  "exact_scaler 128 1 =
     \<lparr> scaledWidth = 128, scaledHeight = 1,
       srcCol = (\<lambda>x. word_of_nat (unat x * 128 div 128)),
       srcRow = (\<lambda>y. word_of_nat (unat y * 128 div 128)) \<rparr>"
  by (simp add: exact_scaler_def)

lemma unat_of_nat_small:
  assumes "x < 128"
  shows "unat (word_of_nat x :: 32 word) = x"
  using assms by (simp add: unat_of_nat)

lemma render_row128_8bpp:
  assumes w: "width h = 128" and hh: "height h = 1" and bpp: "bitsPerPixel h = 8"
    and off: "dataOffset h = 54" and len: "length buf = 182"
    and px: "\<forall>i<128. buf ! (54 + i) = g"
  shows "render_bmp exact_scaler past h buf d =
     d @ [ClearBuffer]
       @ map (\<lambda>x. DrawPixel (word_of_nat x) 147
                     (if g < 128 then EPD_BLACK else EPD_WHITE)) [0..<128]
       @ [Display]"
proof -
  have a: "abs32 (width h) = 128" "abs32 (height h) = 1" "\<not> sint (height h) < 0"
    by (simp_all add: w hh abs32_def)
  have p: "pixelData past buf 54 (word_of_nat x) = g" if "x < 128" for x
    using that px len by (simp add: pixelData_def unat_of_nat_small)
  have "map (\<lambda>x. DrawPixel (word_of_nat x) 147
                (if pixelData past buf 54 (word_of_nat x) < 128 then EPD_BLACK else EPD_WHITE))
          [0..<128]
      = map (\<lambda>x. DrawPixel (word_of_nat x) 147 (if g < 128 then EPD_BLACK else EPD_WHITE))
          [0..<128]"
    by (rule map_cong) (simp_all add: p)
  then have "draw_pixels (exact_scaler 128 1) past h buf
      = map (\<lambda>x. DrawPixel (word_of_nat x) 147 (if g < 128 then EPD_BLACK else EPD_WHITE))
          [0..<128]"
    by (simp add: draw_pixels_8 [OF bpp] pixel_loops_8 a off exact_scaler_128_1
        DISPLAY_WIDTH_def DISPLAY_HEIGHT_def)
  then show ?thesis
    by (simp add: render_bmp_draw a)
qed

lemma gray_bmp_header:
  "signature (parse_header gray_bmp) = 0x4D42"
  "bitsPerPixel (parse_header gray_bmp) = 8"
  "width (parse_header gray_bmp) = 128"
  "height (parse_header gray_bmp) = 1"
  "dataOffset (parse_header gray_bmp) = 54"
  by (simp_all add: gray_bmp_def bmp_bytes_def le16_def le32_def parse_header_def
      rd16_def rd32_def)

lemma pixel_loops_empty:
  assumes "scaledWidth sc = 0 \<or> scaledHeight sc = 0"
  shows "pixel_loops sc td H ox oy px = []"
  using assms by (auto simp add: pixel_loops_def Let_def)

lemma draw_pixels_nothing:
  assumes "scaledWidth sc = 0 \<or> scaledHeight sc = 0
         \<or> (bitsPerPixel h \<noteq> 24 \<and> bitsPerPixel h \<noteq> 8 \<and> bitsPerPixel h \<noteq> 1)"
  shows "draw_pixels sc past h buf = []"
proof (cases "bitsPerPixel h \<noteq> 24 \<and> bitsPerPixel h \<noteq> 8 \<and> bitsPerPixel h \<noteq> 1")
  case True
  then show ?thesis by (simp add: draw_pixels_def Let_def)
next
  case False
  with assms have "scaledWidth sc = 0 \<or> scaledHeight sc = 0"
    by blast
  then have "pixel_loops sc td H ox oy px = []" for td H ox oy px
    by (rule pixel_loops_empty)
  then show ?thesis by (simp add: draw_pixels_def Let_def)
qed

lemma render_bmp_nothing:
  assumes "scaledWidth (fl (abs32 (width h)) (abs32 (height h))) = 0
         \<or> scaledHeight (fl (abs32 (width h)) (abs32 (height h))) = 0
         \<or> (bitsPerPixel h \<noteq> 24 \<and> bitsPerPixel h \<noteq> 8 \<and> bitsPerPixel h \<noteq> 1)"
  shows "render_bmp fl past h buf d = d @ [ClearBuffer, Display]"
  using assms by (simp add: render_bmp_draw draw_pixels_nothing)




lemma demo_card_files:
  "s_mounted demo_card"
  "sd_files demo_card ''/sdcard/images/a.bmp'' = Some [0x42, 0x4D]"
  "sd_files demo_card ''/sdcard/images/b.BMP'' = Some gray_bmp"
  "sd_files demo_card ''/sdcard/images/c.bmp'' = Some []"
  "sd_files demo_card ''/sdcard/images/rle.bmp'' = Some rle_bmp"
  "sd_files demo_card ''/sdcard/images/four.bmp'' = Some four_bmp"
  "sd_files demo_card ''/sdcard/images/flat.bmp'' = Some flat_bmp"
  "sd_files demo_card ''/sdcard/images/thin.bmp'' = Some thin_bmp"
  "sd_files demo_card ''/sdcard/images/wide.bmp'' = Some wide_bmp"
  by (simp_all add: demo_card_def)

lemma rle_bmp_header:
  "signature (parse_header rle_bmp) = 0x4D42"
  "bitsPerPixel (parse_header rle_bmp) = 8"
  "width (parse_header rle_bmp) = 128"
  "height (parse_header rle_bmp) = 1"
  "dataOffset (parse_header rle_bmp) = 54"
  "compression (parse_header rle_bmp) = 1"
  by (simp_all add: rle_bmp_def bmp_bytes_def le16_def le32_def parse_header_def
      rd16_def rd32_def)

lemma four_bmp_header:
  "signature (parse_header four_bmp) = 0x4D42"
  "bitsPerPixel (parse_header four_bmp) = 4"
  by (simp_all add: four_bmp_def bmp_bytes_def le16_def le32_def parse_header_def
      rd16_def rd32_def)

lemma flat_bmp_header:
  "signature (parse_header flat_bmp) = 0x4D42"
  "bitsPerPixel (parse_header flat_bmp) = 24"
  "width (parse_header flat_bmp) = 0"
  "height (parse_header flat_bmp) = 1"
  by (simp_all add: flat_bmp_def bmp_bytes_def le16_def le32_def parse_header_def
      rd16_def rd32_def)

lemma thin_bmp_header:
  "signature (parse_header thin_bmp) = 0x4D42"
  "bitsPerPixel (parse_header thin_bmp) = 24"
  "width (parse_header thin_bmp) = 1"
  "height (parse_header thin_bmp) = 0"
  by (simp_all add: thin_bmp_def bmp_bytes_def le16_def le32_def parse_header_def
      rd16_def rd32_def)

lemma wide_bmp_header:
  "signature (parse_header wide_bmp) = 0x4D42"
  "bitsPerPixel (parse_header wide_bmp) = 24"
  "width (parse_header wide_bmp) = 1431655765"
  "height (parse_header wide_bmp) = 1"
  by (simp_all add: wide_bmp_def bmp_bytes_def le16_def le32_def parse_header_def
      rd16_def rd32_def)

lemma fixture_lengths:
  "length gray_bmp = 182" "length rle_bmp = 182" "length four_bmp = 58"
  "length flat_bmp = 54" "length thin_bmp = 54" "length wide_bmp = 54"
  by (simp_all add: gray_bmp_def rle_bmp_def four_bmp_def flat_bmp_def thin_bmp_def
      wide_bmp_def length_bmp_bytes)

lemma gray_pixels: "\<forall>i<128. gray_bmp ! (54 + i) = 100"
  by (simp add: gray_bmp_def bmp_bytes_nth_pixel)

lemma rle_pixels: "\<forall>i<128. rle_bmp ! (54 + i) = 100"
  by (simp add: rle_bmp_def bmp_bytes_nth_pixel)

lemma load_gray:
  "loadAndDisplayBMP exact_scaler past demo_card (Some ''/sdcard/images/b.BMP'') (Some d)
     = Inr (d @ [ClearBuffer] @ black_row @ [Display])"
proof -
  have "render_bmp exact_scaler past (parse_header gray_bmp) gray_bmp d
      = d @ [ClearBuffer]
          @ map (\<lambda>x. DrawPixel (word_of_nat x) 147
                        (if (100 :: 8 word) < 128 then EPD_BLACK else EPD_WHITE)) [0..<128]
          @ [Display]"
    by (rule render_row128_8bpp) (simp_all add: gray_bmp_header fixture_lengths gray_pixels)
  then have "render_bmp exact_scaler past (parse_header gray_bmp) gray_bmp d
      = d @ [ClearBuffer] @ black_row @ [Display]"
    by (simp add: black_row_def)
  then show ?thesis
    by (simp add: load_after_read [of demo_card _ gray_bmp] demo_card_files
        fixture_lengths gray_bmp_header)
qed

lemma load_rle:
  "loadAndDisplayBMP exact_scaler past demo_card (Some ''/sdcard/images/rle.bmp'') (Some d)
     = Inr (d @ [ClearBuffer] @ black_row @ [Display])"
proof -
  have "render_bmp exact_scaler past (parse_header rle_bmp) rle_bmp d
      = d @ [ClearBuffer]
          @ map (\<lambda>x. DrawPixel (word_of_nat x) 147
                        (if (100 :: 8 word) < 128 then EPD_BLACK else EPD_WHITE)) [0..<128]
          @ [Display]"
    by (rule render_row128_8bpp) (simp_all add: rle_bmp_header fixture_lengths rle_pixels)
  then have "render_bmp exact_scaler past (parse_header rle_bmp) rle_bmp d
      = d @ [ClearBuffer] @ black_row @ [Display]"
    by (simp add: black_row_def)
  then show ?thesis
    by (simp add: load_after_read [of demo_card _ rle_bmp] demo_card_files
        fixture_lengths rle_bmp_header)
qed

lemma load_four:
  "loadAndDisplayBMP exact_scaler past demo_card (Some ''/sdcard/images/four.bmp'') (Some d)
     = Inr (d @ [ClearBuffer, Display])"
  by (simp add: load_after_read [of demo_card _ four_bmp] demo_card_files
        fixture_lengths four_bmp_header render_bmp_nothing)

lemma load_flat:
  "loadAndDisplayBMP exact_scaler past demo_card (Some ''/sdcard/images/flat.bmp'') (Some d)
     = Inr (d @ [ClearBuffer, Display])"
proof -
  have "scaledWidth (exact_scaler (abs32 (width (parse_header flat_bmp)))
          (abs32 (height (parse_header flat_bmp)))) = 0"
    by (simp add: flat_bmp_header abs32_def exact_scaler_def)
  then have "render_bmp exact_scaler past (parse_header flat_bmp) flat_bmp d
      = d @ [ClearBuffer, Display]"
    by (simp add: render_bmp_nothing)
  then show ?thesis
    by (simp add: load_after_read [of demo_card _ flat_bmp] demo_card_files
        fixture_lengths flat_bmp_header)
qed

lemma load_wide:
  "loadAndDisplayBMP exact_scaler past demo_card (Some ''/sdcard/images/wide.bmp'') (Some d)
     = Inr (d @ [ClearBuffer, Display])"
proof -
  have "scaledHeight (exact_scaler (abs32 (width (parse_header wide_bmp)))
          (abs32 (height (parse_header wide_bmp)))) = 0"
    by (simp add: wide_bmp_header abs32_def exact_scaler_def)
  then have "render_bmp exact_scaler past (parse_header wide_bmp) wide_bmp d
      = d @ [ClearBuffer, Display]"
    by (simp add: render_bmp_nothing)
  then show ?thesis
    by (simp add: load_after_read [of demo_card _ wide_bmp] demo_card_files
        fixture_lengths wide_bmp_header)
qed


section \<open>Row sizes\<close>

lemma sint32_neg_iff:
  fixes v :: "32 word"
  shows "sint v < 0 \<longleftrightarrow> 2 ^ 31 \<le> unat v"
proof -
  have u: "uint v < 2 ^ 32" using uint_lt2p [of v] by simp
  have u0: "0 \<le> uint v" by simp
  have "sint v = signed_take_bit 31 (uint v)"
    by (simp add: sint_uint)
  also have "\<dots> = (uint v + 2 ^ 31) mod 2 ^ 32 - 2 ^ 31"
    by (simp add: signed_take_bit_eq_take_bit_shift take_bit_eq_mod)
  finally have s: "sint v = (uint v + 2 ^ 31) mod 2 ^ 32 - 2 ^ 31" .
  have "sint v < 0 \<longleftrightarrow> 2 ^ 31 \<le> uint v"
  proof (cases "uint v < 2 ^ 31")
    case True
    then have "(uint v + 2 ^ 31) mod 2 ^ 32 = uint v + 2 ^ 31"
      using u0 by (simp add: mod_pos_pos_trivial)
    with True u0 show ?thesis unfolding s by simp
  next
    case False
    have "uint v + 2 ^ 31 = (uint v - 2 ^ 31) + 2 ^ 32"
      by simp
    then have "(uint v + 2 ^ 31) mod 2 ^ 32 = (uint v - 2 ^ 31) mod 2 ^ 32"
      by (simp only: mod_add_self2)
    also have "\<dots> = uint v - 2 ^ 31"
      using False u by (simp add: mod_pos_pos_trivial)
    finally show ?thesis using False u unfolding s by simp
  qed
  also have "\<dots> \<longleftrightarrow> 2 ^ 31 \<le> unat v"
    unfolding uint_nat using of_nat_le_iff [of "2 ^ 31" "unat v", where ?'a = int] by simp
  finally show ?thesis .
qed

lemma unat_abs32_le: "unat (abs32 v) \<le> 2 ^ 31"
proof (cases "sint v < 0")
  case True
  then have big: "2 ^ 31 \<le> unat v"
    by (simp add: sint32_neg_iff)
  have "unat (- v) = 2 ^ 32 - unat v"
    using big unat_sub_if_size [of 0 v] by (simp add: word_size)
  with big have "unat (- v) \<le> 2 ^ 31" by simp
  with True show ?thesis by (simp add: abs32_def)
next
  case False
  then have "unat v < 2 ^ 31"
    by (simp add: sint32_neg_iff)
  with False show ?thesis by (simp add: abs32_def)
qed

lemma rowSize24_nat:
  assumes "unat w \<le> 1431655764"
  shows "unat (rowSize24 w) = (24 * unat w + 31) div 32 * 4"
proof -
  have a: "unat (w * 3 + 3) = unat w * 3 + 3"
    using assms by (simp add: unat_word_ariths)
  have b: "unat ((w * 3 + 3) div 4) = (unat w * 3 + 3) div 4"
    by (simp add: unat_div a)
  have c: "unat ((w * 3 + 3) div 4 * 4) = (unat w * 3 + 3) div 4 * 4"
    using assms by (simp add: unat_word_ariths b)
  have d: "(24 * unat w + 31) div 32 = (7 + (unat w * 3 + 3) * 8) div 8 div 4"
    by (simp add: div_mult2_eq [of _ 8 4, simplified] algebra_simps)
  have e: "(7 + (unat w * 3 + 3) * 8) div 8 = unat w * 3 + 3"
    by (simp only: div_mult_self1)
  show ?thesis unfolding rowSize24_def c d e by simp
qed

lemma rowSize8_nat:
  assumes "unat w \<le> 2 ^ 31"
  shows "unat (rowSize8 w) = (8 * unat w + 31) div 32 * 4"
proof -
  have a: "unat (w + 3) = unat w + 3"
    using assms by (simp add: unat_word_ariths)
  have b: "unat ((w + 3) div 4) = (unat w + 3) div 4"
    by (simp add: unat_div a)
  have c: "unat ((w + 3) div 4 * 4) = (unat w + 3) div 4 * 4"
    using assms by (simp add: unat_word_ariths b)
  have d: "(8 * unat w + 31) div 32 = (31 + unat w * 8) div 8 div 4"
    by (simp add: div_mult2_eq [of _ 8 4, simplified] algebra_simps)
  have e: "(31 + unat w * 8) div 8 = unat w + 3"
    by (simp only: div_mult_self1)
  show ?thesis unfolding rowSize8_def c d e by simp
qed

lemma rowSize1_nat:
  assumes "unat w \<le> 2 ^ 31"
  shows "unat (rowSize1 w) = (1 * unat w + 31) div 32 * 4"
proof -
  have a: "unat (w + 7) = unat w + 7"
    using assms by (simp add: unat_word_ariths)
  have b: "unat ((w + 7) div 8) = (unat w + 7) div 8"
    by (simp add: unat_div a)
  have b2: "unat ((w + 7) div 8 + 3) = (unat w + 7) div 8 + 3"
    using assms by (simp add: unat_word_ariths b)
  have b3: "unat (((w + 7) div 8 + 3) div 4) = ((unat w + 7) div 8 + 3) div 4"
    by (simp add: unat_div b2)
  have c: "unat (((w + 7) div 8 + 3) div 4 * 4) = ((unat w + 7) div 8 + 3) div 4 * 4"
    using assms by (simp add: unat_word_ariths b3)
  have d: "(unat w + 7) div 8 + 3 = (unat w + 31) div 8"
    by presburger
  have e: "(unat w + 31) div 32 = (unat w + 31) div 8 div 4"
    by (simp add: div_mult2_eq)
  show ?thesis unfolding rowSize1_def c d e by simp
qed

section \<open>Claims about the bitmap loader\<close>

text \<open>
  C1 (amended). An 8-bits-per-pixel file that passes the size, signature and depth checks
  is accepted, and every byte the loader fetches for a pixel is compared with 128
  directly, without going through \<open>rgbToEinkColor\<close>: the pixel drawn is BLACK exactly
  when the byte is below 128 and WHITE otherwise.
\<close>

theorem gray8_threshold:
  assumes mounted: "s_mounted sd" and stored: "sd_files sd path = Some buf"
    and min: "54 \<le> length buf" and len: "length buf < 2 ^ 31"
    and sig: "signature (parse_header buf) = 0x4D42"
    and bpp: "bitsPerPixel (parse_header buf) = 8"
  shows "let h = parse_header buf;
             imgWidth = abs32 (width h);
             imgHeight = abs32 (height h);
             sc = fl imgWidth imgHeight;
             offsetX = (ucast DISPLAY_WIDTH - scaledWidth sc) div 2;
             offsetY = (ucast DISPLAY_HEIGHT - scaledHeight sc) div 2;
             gray = (\<lambda>y x. pixelData past buf (dataOffset h)
                       ((if \<not> sint (height h) < 0
                         then imgHeight - 1 - srcRow sc (word_of_nat y)
                         else srcRow sc (word_of_nat y)) * rowSize8 imgWidth
                        + srcCol sc (word_of_nat x)))
         in loadAndDisplayBMP fl past sd (Some path) (Some d)
              = Inr (d @ [ClearBuffer]
                  @ concat (map (\<lambda>y. map (\<lambda>x.
                       DrawPixel (offsetX + word_of_nat x) (offsetY + word_of_nat y)
                         (if gray y x < 128 then EPD_BLACK else EPD_WHITE))
                      [0..<unat (scaledWidth sc)]) [0..<unat (scaledHeight sc)])
                  @ [Display])"
proof -
  have "loadAndDisplayBMP fl past sd (Some path) (Some d)
      = Inr (render_bmp fl past (parse_header buf) buf d)"
    using mounted stored min len sig bpp by (simp add: load_after_read)
  then show ?thesis
    by (simp add: render_bmp_draw draw_pixels_8 [OF bpp] pixel_loops_8 Let_def)
qed

theorem gray8_threshold_witness:
  "s_mounted demo_card
   \<and> sd_files demo_card ''/sdcard/images/b.BMP'' = Some gray_bmp
   \<and> 54 \<le> length gray_bmp \<and> length gray_bmp < 2 ^ 31
   \<and> signature (parse_header gray_bmp) = 0x4D42
   \<and> bitsPerPixel (parse_header gray_bmp) = 8
   \<and> (let h = parse_header gray_bmp;
             imgWidth = abs32 (width h);
             imgHeight = abs32 (height h);
             sc = exact_scaler imgWidth imgHeight;
             offsetX = (ucast DISPLAY_WIDTH - scaledWidth sc) div 2;
             offsetY = (ucast DISPLAY_HEIGHT - scaledHeight sc) div 2;
             gray = (\<lambda>y x. pixelData blank_memory gray_bmp (dataOffset h)
                       ((if \<not> sint (height h) < 0
                         then imgHeight - 1 - srcRow sc (word_of_nat y)
                         else srcRow sc (word_of_nat y)) * rowSize8 imgWidth
                        + srcCol sc (word_of_nat x)))
         in loadAndDisplayBMP exact_scaler blank_memory demo_card
                (Some ''/sdcard/images/b.BMP'') (Some [])
              = Inr ([] @ [ClearBuffer]
                  @ concat (map (\<lambda>y. map (\<lambda>x.
                       DrawPixel (offsetX + word_of_nat x) (offsetY + word_of_nat y)
                         (if gray y x < 128 then EPD_BLACK else EPD_WHITE))
                      [0..<unat (scaledWidth sc)]) [0..<unat (scaledHeight sc)])
                  @ [Display]))"
proof -
  have h1: "s_mounted demo_card"
    and h2: "sd_files demo_card ''/sdcard/images/b.BMP'' = Some gray_bmp"
    by (simp_all add: demo_card_files)
  have h3: "54 \<le> length gray_bmp" and h4: "length gray_bmp < 2 ^ 31"
    by (simp_all add: fixture_lengths)
  have h5: "signature (parse_header gray_bmp) = 0x4D42"
    and h6: "bitsPerPixel (parse_header gray_bmp) = 8"
    by (simp_all add: gray_bmp_header)
  show ?thesis
    using gray8_threshold [where fl = exact_scaler and past = blank_memory and d = "[]",
        OF h1 h2 h3 h4 h5 h6]
      h1 h2 h3 h4 h5 h6 by blast
qed

text \<open>
  The claim as stated fails on the gray image, whose pixel bytes are all 100: the
  quantizer maps (100, 100, 100) to WHITE, and the loader draws every pixel BLACK.
\<close>

theorem gray8_counterexample:
  "bitsPerPixel (parse_header gray_bmp) = 8
   \<and> gray_bmp ! 54 = 100
   \<and> rgbToEinkColor 100 100 100 = EPD_WHITE
   \<and> loadAndDisplayBMP exact_scaler blank_memory demo_card
         (Some ''/sdcard/images/b.BMP'') (Some [])
       = Inr ([ClearBuffer] @ black_row @ [Display])"
  using load_gray [of blank_memory "[]"] gray_pixels [rule_format, of 0]
  by (simp add: gray_bmp_header rgbToEinkColor_def)

text \<open>
  C2 (amended). The depth check admits the depths 1, 4, 8 and 24: a file that passes the
  size and signature checks is rejected at the depth check when its depth is outside
  \<open>{1, 4, 8, 24}\<close>, and otherwise goes on to the renderer.
\<close>

theorem depth_check:
  assumes "s_mounted sd" and "sd_files sd path = Some buf"
    and "54 \<le> length buf" and "length buf < 2 ^ 31"
    and "signature (parse_header buf) = 0x4D42"
  shows "(bitsPerPixel (parse_header buf) \<notin> {1, 4, 8, 24} \<longrightarrow>
            loadAndDisplayBMP fl past sd (Some path) (Some d) = Inl UnsupportedBpp)
       \<and> (bitsPerPixel (parse_header buf) \<in> {1, 4, 8, 24} \<longrightarrow>
            loadAndDisplayBMP fl past sd (Some path) (Some d)
              = Inr (render_bmp fl past (parse_header buf) buf d)
            \<and> loadAndDisplayBMP fl past sd (Some path) (Some d) \<noteq> Inl UnsupportedBpp)"
proof -
  have a: "loadAndDisplayBMP fl past sd (Some path) (Some d) =
     (if bitsPerPixel (parse_header buf) \<noteq> 1 \<and> bitsPerPixel (parse_header buf) \<noteq> 4
              \<and> bitsPerPixel (parse_header buf) \<noteq> 8 \<and> bitsPerPixel (parse_header buf) \<noteq> 24
        then Inl UnsupportedBpp
      else Inr (render_bmp fl past (parse_header buf) buf d))"
    using assms by (simp add: load_after_read)
  show ?thesis
    unfolding a by simp
qed

theorem depth_check_witness:
  "s_mounted demo_card
   \<and> sd_files demo_card ''/sdcard/images/four.bmp'' = Some four_bmp
   \<and> 54 \<le> length four_bmp \<and> length four_bmp < 2 ^ 31
   \<and> signature (parse_header four_bmp) = 0x4D42
   \<and> bitsPerPixel (parse_header four_bmp) \<in> {1, 4, 8, 24}
   \<and> loadAndDisplayBMP exact_scaler blank_memory demo_card
         (Some ''/sdcard/images/four.bmp'') (Some [])
       = Inr (render_bmp exact_scaler blank_memory (parse_header four_bmp) four_bmp [])
   \<and> loadAndDisplayBMP exact_scaler blank_memory demo_card
         (Some ''/sdcard/images/four.bmp'') (Some [])
       \<noteq> Inl UnsupportedBpp"
proof -
  have h1: "s_mounted demo_card"
    and h2: "sd_files demo_card ''/sdcard/images/four.bmp'' = Some four_bmp"
    by (simp_all add: demo_card_files)
  have h3: "54 \<le> length four_bmp" and h4: "length four_bmp < 2 ^ 31"
    by (simp_all add: fixture_lengths)
  have h5: "signature (parse_header four_bmp) = 0x4D42"
    by (simp add: four_bmp_header)
  have h6: "bitsPerPixel (parse_header four_bmp) \<in> {1, 4, 8, 24}"
    by (simp add: four_bmp_header)
  show ?thesis
    using depth_check [OF h1 h2 h3 h4 h5, of exact_scaler blank_memory "[]"]
      h1 h2 h3 h4 h5 h6 by blast
qed

text \<open>
  The claim as stated fails on a 4-bits-per-pixel file: it is not rejected, the loader
  returns \<open>true\<close> after clearing and refreshing the panel.
\<close>

theorem depth_check_counterexample:
  "bitsPerPixel (parse_header four_bmp) = 4
   \<and> loadAndDisplayBMP exact_scaler blank_memory demo_card
         (Some ''/sdcard/images/four.bmp'') (Some [])
       = Inr [ClearBuffer, Display]"
  using load_four [of blank_memory "[]"] by (simp add: four_bmp_header)




text \<open>
  C4 (amended). The loader has no check on the dimensions: a file with width or height
  zero that passes the size, signature and depth checks is not rejected. The loader
  clears the panel, runs the scale computation with the zero dimension, draws the pixels
  that the computed scaling asks for, refreshes the panel and returns \<open>true\<close>.
\<close>

theorem zero_dimension_not_rejected:
  assumes "s_mounted sd" and "sd_files sd path = Some buf"
    and "54 \<le> length buf" and "length buf < 2 ^ 31"
    and "signature (parse_header buf) = 0x4D42"
    and "bitsPerPixel (parse_header buf) \<in> {1, 4, 8, 24}"
  shows "(width (parse_header buf) = 0 \<longrightarrow>
            loadAndDisplayBMP fl past sd (Some path) (Some d)
              = Inr (d @ [ClearBuffer]
                  @ draw_pixels (fl 0 (abs32 (height (parse_header buf)))) past
                      (parse_header buf) buf
                  @ [Display]))
       \<and> (height (parse_header buf) = 0 \<longrightarrow>
            loadAndDisplayBMP fl past sd (Some path) (Some d)
              = Inr (d @ [ClearBuffer]
                  @ draw_pixels (fl (abs32 (width (parse_header buf))) 0) past
                      (parse_header buf) buf
                  @ [Display]))"
proof -
  have a: "loadAndDisplayBMP fl past sd (Some path) (Some d)
      = Inr (render_bmp fl past (parse_header buf) buf d)"
    using assms by (auto simp add: load_after_read)
  have z: "abs32 0 = 0"
    by (simp add: abs32_def)
  show ?thesis
    unfolding a by (simp add: render_bmp_draw z)
qed

theorem zero_dimension_not_rejected_witness:
  "s_mounted demo_card
   \<and> sd_files demo_card ''/sdcard/images/flat.bmp'' = Some flat_bmp
   \<and> 54 \<le> length flat_bmp \<and> length flat_bmp < 2 ^ 31
   \<and> signature (parse_header flat_bmp) = 0x4D42
   \<and> bitsPerPixel (parse_header flat_bmp) \<in> {1, 4, 8, 24}
   \<and> width (parse_header flat_bmp) = 0
   \<and> loadAndDisplayBMP exact_scaler blank_memory demo_card
         (Some ''/sdcard/images/flat.bmp'') (Some [])
       = Inr ([] @ [ClearBuffer]
           @ draw_pixels (exact_scaler 0 (abs32 (height (parse_header flat_bmp))))
               blank_memory (parse_header flat_bmp) flat_bmp
           @ [Display])
   \<and> sd_files demo_card ''/sdcard/images/thin.bmp'' = Some thin_bmp
   \<and> 54 \<le> length thin_bmp \<and> length thin_bmp < 2 ^ 31
   \<and> signature (parse_header thin_bmp) = 0x4D42
   \<and> bitsPerPixel (parse_header thin_bmp) \<in> {1, 4, 8, 24}
   \<and> height (parse_header thin_bmp) = 0
   \<and> loadAndDisplayBMP exact_scaler blank_memory demo_card
         (Some ''/sdcard/images/thin.bmp'') (Some [])
       = Inr ([] @ [ClearBuffer]
           @ draw_pixels (exact_scaler (abs32 (width (parse_header thin_bmp))) 0)
               blank_memory (parse_header thin_bmp) thin_bmp
           @ [Display])"
proof -
  have h1: "s_mounted demo_card"
    and h2: "sd_files demo_card ''/sdcard/images/flat.bmp'' = Some flat_bmp"
    and k2: "sd_files demo_card ''/sdcard/images/thin.bmp'' = Some thin_bmp"
    by (simp_all add: demo_card_files)
  have h3: "54 \<le> length flat_bmp" and h4: "length flat_bmp < 2 ^ 31"
    and k3: "54 \<le> length thin_bmp" and k4: "length thin_bmp < 2 ^ 31"
    by (simp_all add: fixture_lengths)
  have h5: "signature (parse_header flat_bmp) = 0x4D42"
    and h6: "bitsPerPixel (parse_header flat_bmp) \<in> {1, 4, 8, 24}"
    and h7: "width (parse_header flat_bmp) = 0"
    by (simp_all add: flat_bmp_header)
  have k5: "signature (parse_header thin_bmp) = 0x4D42"
    and k6: "bitsPerPixel (parse_header thin_bmp) \<in> {1, 4, 8, 24}"
    and k7: "height (parse_header thin_bmp) = 0"
    by (simp_all add: thin_bmp_header)
  show ?thesis
    using zero_dimension_not_rejected [where fl = exact_scaler and past = blank_memory
          and d = "[]", OF h1 h2 h3 h4 h5 h6]
      zero_dimension_not_rejected [where fl = exact_scaler and past = blank_memory
          and d = "[]", OF h1 k2 k3 k4 k5 k6]
      h1 h2 h3 h4 h5 h6 h7 k2 k3 k4 k5 k6 k7 by blast
qed

text \<open>
  The claim as stated fails on a file of width 0 and height 1: it is accepted.
\<close>

theorem zero_dimension_counterexample:
  "width (parse_header flat_bmp) = 0
   \<and> loadAndDisplayBMP exact_scaler blank_memory demo_card
         (Some ''/sdcard/images/flat.bmp'') (Some [])
       = Inr [ClearBuffer, Display]"
  using load_flat [of blank_memory "[]"] by (simp add: flat_bmp_header)

text \<open>
  C5 (amended). For the width \<open>w\<close> taken from any header, the row size of the 8-bit
  loop is \<open>((8 w + 31) / 32) 4\<close> and that of the 1-bit loop is \<open>((w + 31) / 32) 4\<close>;
  the row size of the 24-bit loop is \<open>((24 w + 31) / 32) 4\<close> as long as \<open>3 w + 3\<close>
  fits in 32 bits, that is for \<open>w\<close> up to 1431655764.
\<close>

theorem row_stride_law:
  assumes "w = abs32 v"
  shows "(unat w \<le> 1431655764 \<longrightarrow> unat (rowSize24 w) = (24 * unat w + 31) div 32 * 4)
       \<and> unat (rowSize8 w) = (8 * unat w + 31) div 32 * 4
       \<and> unat (rowSize1 w) = (1 * unat w + 31) div 32 * 4"
  using assms unat_abs32_le [of v] by (simp add: rowSize24_nat rowSize8_nat rowSize1_nat)

theorem row_stride_law_witness:
  "unat (abs32 10) \<le> 1431655764 \<and> unat (rowSize24 (abs32 10)) = 32
     \<and> unat (rowSize8 (abs32 10)) = 12 \<and> unat (rowSize1 (abs32 10)) = 4"
  using row_stride_law [of "abs32 10" 10] by (simp add: abs32_def)

text \<open>
  The claim as stated fails on a 24-bits-per-pixel file of width 1431655765, which the
  loader accepts: \<open>w * 3 + 3\<close> wraps around and the row size is 0.
\<close>

theorem row_stride_counterexample:
  "bitsPerPixel (parse_header wide_bmp) = 24
   \<and> width (parse_header wide_bmp) = 1431655765
   \<and> loadAndDisplayBMP exact_scaler blank_memory demo_card
         (Some ''/sdcard/images/wide.bmp'') (Some [])
       = Inr [ClearBuffer, Display]
   \<and> 1 \<le> unat (abs32 1431655765)
   \<and> unat (rowSize24 (abs32 1431655765)) = 0
   \<and> (24 * unat (abs32 1431655765) + 31) div 32 * 4 = 4294967296"
  using load_wide [of blank_memory "[]"] by (simp add: wide_bmp_header abs32_def rowSize24_def)

section \<open>Enumeration of the image directory\<close>

lemma has_ext_suffix:
  "(length e \<le> length f \<and> drop (length f - length e) f = e) \<longleftrightarrow> suffix e f"
proof
  assume a: "length e \<le> length f \<and> drop (length f - length e) f = e"
  have "suffix (drop (length f - length e) f) f"
    by (rule suffix_drop)
  with a show "suffix e f" by simp
next
  assume "suffix e f"
  then obtain zs where "f = zs @ e"
    by (auto simp add: suffix_def)
  then show "length e \<le> length f \<and> drop (length f - length e) f = e"
    by simp
qed

lemma isImage_suffix:
  "isImage f IMAGE_EXTENSIONS \<longleftrightarrow> suffix ''.bmp'' f \<or> suffix ''.BMP'' f"
proof -
  have "isImage f [''.bmp'', ''.BMP'']
      \<longleftrightarrow> (length ''.bmp'' \<le> length f \<and> drop (length f - length ''.bmp'') f = ''.bmp'')
        \<or> (length ''.BMP'' \<le> length f \<and> drop (length f - length ''.BMP'') f = ''.BMP'')"
    by (simp del: length_Cons list.size)
  then show ?thesis
    by (simp only: has_ext_suffix IMAGE_EXTENSIONS_def)
qed

lemma dot_prefix:
  "(case f of [] \<Rightarrow> False | c # _ \<Rightarrow> c = CHR ''.'') \<longleftrightarrow> prefix ''.'' f"
  by (cases f) auto

lemma scan_loop_step:
  "scan_loop dir (e # es) acc =
     (if \<not> length acc < MAX_IMAGE_FILES then acc
      else if \<not> prefix ''.'' (d_name e)
              \<and> (suffix ''.bmp'' (d_name e) \<or> suffix ''.BMP'' (d_name e))
        then scan_loop dir es (acc @ [dir @ ''/'' @ d_name e])
      else scan_loop dir es acc)"
  by (simp only: scan_loop.simps dot_prefix isImage_suffix) simp

lemma scan_loop_take:
  assumes "length acc \<le> MAX_IMAGE_FILES"
  shows "scan_loop dir es acc =
     take MAX_IMAGE_FILES
       (acc @ map (\<lambda>e. dir @ ''/'' @ d_name e)
          (filter (\<lambda>e. \<not> prefix ''.'' (d_name e)
                     \<and> (suffix ''.bmp'' (d_name e) \<or> suffix ''.BMP'' (d_name e))) es))"
proof -
  define P where "P e \<longleftrightarrow> \<not> prefix ''.'' (d_name e)
      \<and> (suffix ''.bmp'' (d_name e) \<or> suffix ''.BMP'' (d_name e))" for e :: dirent
  define g where "g e = dir @ ''/'' @ d_name e" for e :: dirent
  have step: "scan_loop dir (e # es) acc =
     (if \<not> length acc < MAX_IMAGE_FILES then acc
      else if P e then scan_loop dir es (acc @ [g e])
      else scan_loop dir es acc)" for e es acc
    unfolding P_def g_def by (rule scan_loop_step)
  have "scan_loop dir es acc = take MAX_IMAGE_FILES (acc @ map g (filter P es))"
    using assms
  proof (induction es arbitrary: acc)
    case Nil
    then show ?case by simp
  next
    case (Cons e es)
    show ?case
    proof (cases "length acc < MAX_IMAGE_FILES")
      case False
      with Cons.prems have "length acc = MAX_IMAGE_FILES" by simp
      then show ?thesis by (simp add: step del: scan_loop.simps)
    next
      case True
      show ?thesis
      proof (cases "P e")
        case yes: True
        from True have "length (acc @ [g e]) \<le> MAX_IMAGE_FILES"
          by simp
        then have "scan_loop dir es (acc @ [g e]) =
            take MAX_IMAGE_FILES ((acc @ [g e]) @ map g (filter P es))"
          by (rule Cons.IH)
        with True yes show ?thesis by (simp add: step del: scan_loop.simps)
      next
        case no: False
        have "scan_loop dir es acc = take MAX_IMAGE_FILES (acc @ map g (filter P es))"
          using Cons.prems by (rule Cons.IH)
        with True no show ?thesis by (simp add: step del: scan_loop.simps)
      qed
    qed
  qed
  then show ?thesis
    unfolding P_def g_def .
qed

text \<open>
  C8 (amended). On a mounted card and a directory that opens, \<open>scanForImages\<close> returns,
  in the order of the directory, the paths of the first entries (at most 100) whose name
  does not begin with a dot and ends with \<open>.bmp\<close> or \<open>.BMP\<close>, compared case-sensitively,
  whatever the type of the entry: a subdirectory with such a name is returned as well.
  Otherwise it returns nothing.
\<close>

theorem scanForImages_result:
  "scanForImages sd directory =
     (if s_mounted sd then
        (case sd_dirs sd directory of
           None \<Rightarrow> []
         | Some entries \<Rightarrow>
             take MAX_IMAGE_FILES
               (map (\<lambda>e. directory @ ''/'' @ d_name e)
                  (filter (\<lambda>e. \<not> prefix ''.'' (d_name e)
                             \<and> (suffix ''.bmp'' (d_name e) \<or> suffix ''.BMP'' (d_name e)))
                     entries)))
      else [])
   \<and> length (scanForImages sd directory) \<le> 100"
proof -
  have a: "scanForImages sd directory =
     (if s_mounted sd then
        (case sd_dirs sd directory of
           None \<Rightarrow> []
         | Some entries \<Rightarrow>
             take MAX_IMAGE_FILES
               (map (\<lambda>e. directory @ ''/'' @ d_name e)
                  (filter (\<lambda>e. \<not> prefix ''.'' (d_name e)
                             \<and> (suffix ''.bmp'' (d_name e) \<or> suffix ''.BMP'' (d_name e)))
                     entries)))
      else [])"
    by (simp add: scanForImages_def scan_loop_take split: option.splits)
  have "length (scanForImages sd directory) \<le> 100"
    unfolding a by (simp add: MAX_IMAGE_FILES_def split: option.splits)
  with a show ?thesis by blast
qed

theorem scanForImages_result_witness:
  "s_mounted demo_card \<and> length (scanForImages demo_card ''/sdcard/images'') \<le> 100"
proof -
  have "length (scanForImages demo_card ''/sdcard/images'') \<le> 100"
    using scanForImages_result [of demo_card "''/sdcard/images''"] by (rule conjunct2)
  moreover have "s_mounted demo_card"
    by (simp add: demo_card_def)
  ultimately show ?thesis by simp
qed

text \<open>
  The claim as stated fails on a directory that holds a subdirectory \<open>album.bmp\<close>: its
  path is returned, where the enumeration of regular files leaves it out.
\<close>

theorem scanForImages_counterexample:
  "scanForImages demo_card ''/sdcard/images''
     = [''/sdcard/images/a.bmp'', ''/sdcard/images/b.BMP'', ''/sdcard/images/album.bmp'']
   \<and> enumerate_spec demo_card ''/sdcard/images''
     = [''/sdcard/images/a.bmp'', ''/sdcard/images/b.BMP'']
   \<and> demo_listing ! 6 = \<lparr> d_name = ''album.bmp'', d_type = DT_DIR \<rparr>"
  by (simp add: scanForImages_def enumerate_spec_def demo_card_def demo_listing_def
      MAX_IMAGE_FILES_def IMAGE_EXTENSIONS_def suffix_def)

section \<open>Rendering the current image\<close>

lemma displayCurrentImage_frame:
  "s_state (displayCurrentImage ld s) = s_state s
   \<and> s_imageFiles (displayCurrentImage ld s) = s_imageFiles s
   \<and> s_autoAdvance (displayCurrentImage ld s) = s_autoAdvance s
   \<and> s_lastActivityTick (displayCurrentImage ld s) = s_lastActivityTick s
   \<and> s_lastAutoAdvanceTick (displayCurrentImage ld s) = s_lastAutoAdvanceTick s"
proof (induction ld s rule: displayCurrentImage.induct)
  case (1 ld s)
  show ?case
  proof (cases "\<not> (s_imageFiles s = [] \<or> length (s_imageFiles s) \<le> s_currentImageIndex s)
      \<and> \<not> fst (ld (s_imageFiles s ! s_currentImageIndex s) (g_display s))
      \<and> (s_currentImageIndex s + 1) mod length (s_imageFiles s) \<noteq> 0")
    case True
    then show ?thesis
      using "1.IH" by (subst (1 2 3 4 5) displayCurrentImage.simps) simp
  next
    case False
    then show ?thesis
      by (subst (1 2 3 4 5) displayCurrentImage.simps) auto
  qed
qed

lemma displayCurrentImage_index:
  assumes "s_currentImageIndex s < length (s_imageFiles s)"
  shows "s_currentImageIndex (displayCurrentImage ld s) < length (s_imageFiles s)"
  using assms
proof (induction ld s rule: displayCurrentImage.induct)
  case (1 ld s)
  show ?case
  proof (cases "\<not> (s_imageFiles s = [] \<or> length (s_imageFiles s) \<le> s_currentImageIndex s)
      \<and> \<not> fst (ld (s_imageFiles s ! s_currentImageIndex s) (g_display s))
      \<and> (s_currentImageIndex s + 1) mod length (s_imageFiles s) \<noteq> 0")
    case True
    then show ?thesis
      using "1.IH" "1.prems" by (subst displayCurrentImage.simps) simp
  next
    case False
    then show ?thesis
      using "1.prems" by (subst displayCurrentImage.simps) auto
  qed
qed

lemma displayCurrentImage_loaded:
  assumes "s_currentImageIndex s < length (s_imageFiles s)"
    and "fst (ld (s_imageFiles s ! s_currentImageIndex s) (g_display s))"
  shows "s_currentImageIndex (displayCurrentImage ld s) = s_currentImageIndex s"
  using assms by (subst displayCurrentImage.simps) auto

lemma displayCurrentImage_out_of_range:
  assumes "\<not> s_currentImageIndex s < length (s_imageFiles s)"
  shows "displayCurrentImage ld s = s"
  using assms by (subst displayCurrentImage.simps) auto

text \<open>
  C7. With a non-empty list of \<open>N\<close> images, a current index \<open>i\<close> below \<open>N\<close> and every
  load failing, \<open>displayCurrentImage\<close> tries the images \<open>i\<close>, \<open>i + 1\<close>, ... up to
  \<open>N - 1\<close> once each, in this order, and returns with the index wrapped to 0: it makes
  \<open>N - i\<close> attempts, at most \<open>N\<close>. The function is total, whatever the loader does.
\<close>

theorem skip_terminates:
  assumes "s_currentImageIndex s < length (s_imageFiles s)"
    and "\<forall>p\<in>set (s_imageFiles s). \<forall>d. \<not> fst (ld p d)"
  shows "s_currentImageIndex (displayCurrentImage ld s) = 0
       \<and> s_log (displayCurrentImage ld s) =
           s_log s @ concat (map (\<lambda>k. [LogDisplaying (k + 1) (length (s_imageFiles s))
                                           (s_imageFiles s ! k), LogLoadFailed])
                               [s_currentImageIndex s..<length (s_imageFiles s)])
       \<and> length [s_currentImageIndex s..<length (s_imageFiles s)] \<le> length (s_imageFiles s)"
  using assms
proof (induction ld s rule: displayCurrentImage.induct)
  case (1 ld s)
  define N where "N = length (s_imageFiles s)"
  define i where "i = s_currentImageIndex s"
  from "1.prems" have lt: "i < N" and fail: "\<not> fst (ld (s_imageFiles s ! i) (g_display s))"
    by (simp_all add: N_def i_def)
  from lt have ne: "s_imageFiles s \<noteq> []"
    by (auto simp add: N_def)
  show ?case
  proof (cases "(i + 1) mod N = 0")
    case True
    with lt have "i + 1 = N"
      by (metis Suc_eq_plus1 Suc_lessI mod_less nat.simps(3))
    then have u: "[i..<N] = [i]"
      by (metis Suc_eq_plus1 upt_rec lessI less_irrefl upt_conv_Nil le_refl)
    show ?thesis
      using True lt fail u ne
      by (subst (1 2) displayCurrentImage.simps) (simp add: N_def [symmetric] i_def [symmetric])
  next
    case False
    with lt have s: "i + 1 < N"
      by (metis Suc_eq_plus1 Suc_lessI mod_self)
    then have m: "(i + 1) mod N = i + 1" by simp
    have u: "[i..<N] = i # [i + 1..<N]"
      using lt by (simp add: upt_conv_Cons)
    let ?s' = "s\<lparr> g_display := snd (ld (s_imageFiles s ! s_currentImageIndex s) (g_display s)),
                   s_log := s_log s @ [LogDisplaying (s_currentImageIndex s + 1)
                           (length (s_imageFiles s)) (s_imageFiles s ! s_currentImageIndex s),
                           LogLoadFailed],
                   s_currentImageIndex :=
                     (s_currentImageIndex s + 1) mod length (s_imageFiles s) \<rparr>"
    have ih: "s_currentImageIndex (displayCurrentImage ld ?s') = 0
       \<and> s_log (displayCurrentImage ld ?s') =
           s_log ?s' @ concat (map (\<lambda>k. [LogDisplaying (k + 1) (length (s_imageFiles ?s'))
                                           (s_imageFiles ?s' ! k), LogLoadFailed])
                               [s_currentImageIndex ?s'..<length (s_imageFiles ?s')])
       \<and> length [s_currentImageIndex ?s'..<length (s_imageFiles ?s')] \<le> length (s_imageFiles ?s')"
    proof (rule "1.IH")
      show "\<not> (s_imageFiles s = [] \<or> length (s_imageFiles s) \<le> s_currentImageIndex s)"
        using lt by (auto simp add: N_def i_def)
      show "\<not> fst (ld (s_imageFiles s ! s_currentImageIndex s) (g_display s))"
        using fail by (simp add: i_def)
      show "(s_currentImageIndex s + 1) mod length (s_imageFiles s) \<noteq> 0"
        using False by (simp add: N_def i_def)
      show "s_currentImageIndex ?s' < length (s_imageFiles ?s')"
        using s m by (simp add: N_def i_def)
      show "\<forall>p\<in>set (s_imageFiles ?s'). \<forall>d. \<not> fst (ld p d)"
        using "1.prems"(2) by simp
    qed
    have unf: "displayCurrentImage ld s = displayCurrentImage ld ?s'"
      using lt fail False
      by (subst displayCurrentImage.simps) (auto simp add: N_def i_def)
    show ?thesis
      unfolding unf using ih m u lt
      by (simp add: N_def [symmetric] i_def [symmetric])
  qed
qed

lemma dead_loader: "bmp_loader fl past dead_card p d = (False, d)"
  by (simp add: bmp_loader_def loadAndDisplayBMP_def getFileSize_def dead_card_def)

lemma demo_loader:
  "bmp_loader exact_scaler blank_memory demo_card ''/sdcard/images/a.bmp'' d = (False, d)"
  "bmp_loader exact_scaler blank_memory demo_card ''/sdcard/images/c.bmp'' d = (False, d)"
  "bmp_loader exact_scaler blank_memory demo_card ''/sdcard/images/b.BMP'' d
     = (True, d @ [ClearBuffer] @ black_row @ [Display])"
  "bmp_loader exact_scaler blank_memory demo_card ''/sdcard/images/rle.bmp'' d
     = (True, d @ [ClearBuffer] @ black_row @ [Display])"
  "bmp_loader exact_scaler blank_memory demo_card ''/sdcard/images/four.bmp'' d
     = (True, d @ [ClearBuffer, Display])"
  by (simp_all add: bmp_loader_def load_gray load_rle load_four
      load_too_short [of demo_card _ "[0x42, 0x4D]"] load_too_short [of demo_card _ "[]"]
      demo_card_files)

theorem skip_terminates_witness:
  "s_currentImageIndex (demo_show\<lparr> s_currentImageIndex := 1 \<rparr>)
     < length (s_imageFiles (demo_show\<lparr> s_currentImageIndex := 1 \<rparr>))
   \<and> s_currentImageIndex (displayCurrentImage (bmp_loader exact_scaler blank_memory dead_card)
         (demo_show\<lparr> s_currentImageIndex := 1 \<rparr>)) = 0
   \<and> s_log (displayCurrentImage (bmp_loader exact_scaler blank_memory dead_card)
         (demo_show\<lparr> s_currentImageIndex := 1 \<rparr>))
       = [LogDisplaying 2 3 ''/sdcard/images/b.BMP'', LogLoadFailed,
          LogDisplaying 3 3 ''/sdcard/images/c.bmp'', LogLoadFailed]"
proof -
  have h1: "s_currentImageIndex (demo_show\<lparr> s_currentImageIndex := 1 \<rparr>)
     < length (s_imageFiles (demo_show\<lparr> s_currentImageIndex := 1 \<rparr>))"
    by (simp add: demo_show_def)
  have h2: "\<forall>p\<in>set (s_imageFiles (demo_show\<lparr> s_currentImageIndex := 1 \<rparr>)).
      \<forall>d. \<not> fst (bmp_loader exact_scaler blank_memory dead_card p d)"
    by (simp add: dead_loader)
  have u: "[1..<3] = [1, 2 :: nat]"
    by (simp add: upt_rec)
  show ?thesis
    using skip_terminates [OF h1 h2] h1 by (simp add: demo_show_def u)
qed

section \<open>The index under button and timer events\<close>

lemma handleButton_frame:
  "s_imageFiles (handleButton ld t evt s) = s_imageFiles s
   \<and> s_state (handleButton ld t evt s) = s_state s"
  by (cases "id_evt evt") (simp_all add: handleButton_def displayCurrentImage_frame)

lemma handleButton_index:
  assumes "s_currentImageIndex s < length (s_imageFiles s)"
  shows "s_currentImageIndex (handleButton ld t evt s) < length (s_imageFiles s)"
proof (cases "s_state s = DISPLAYING")
  case False
  with assms show ?thesis by (simp add: handleButton_def)
next
  case True
  from assms have pos: "s_imageFiles s \<noteq> []" by auto
  show ?thesis
  proof (cases "id_evt evt")
    case UP
    have "s_currentImageIndex (displayCurrentImage ld
        (s\<lparr> s_currentImageIndex := (if s_currentImageIndex s = 0
             then length (s_imageFiles s) - 1 else s_currentImageIndex s - 1) \<rparr>))
        < length (s_imageFiles (s\<lparr> s_currentImageIndex := (if s_currentImageIndex s = 0
             then length (s_imageFiles s) - 1 else s_currentImageIndex s - 1) \<rparr>))"
      by (rule displayCurrentImage_index) (use assms in auto)
    with True UP pos show ?thesis by (simp add: handleButton_def)
  next
    case DOWN
    have "s_currentImageIndex (displayCurrentImage ld
        (s\<lparr> s_currentImageIndex := (s_currentImageIndex s + 1) mod length (s_imageFiles s) \<rparr>))
        < length (s_imageFiles (s\<lparr> s_currentImageIndex :=
             (s_currentImageIndex s + 1) mod length (s_imageFiles s) \<rparr>))"
      by (rule displayCurrentImage_index) (use pos in simp)
    with True DOWN pos show ?thesis by (simp add: handleButton_def)
  next
    case SELECT
    let ?s = "s\<lparr> s_autoAdvance := \<not> s_autoAdvance s,
                s_lastAutoAdvanceTick := t,
                s_log := s_log s @ [LogAutoAdvance (\<not> s_autoAdvance s)],
                g_display := g_display s @
                  [SetTextSize 2, SetTextColor EPD_BLACK, FillRect 0 0 128 30 EPD_WHITE,
                   SetCursor 10 10,
                   Print (if \<not> s_autoAdvance s then ''AUTO'' else ''MANUAL''),
                   Display] \<rparr>"
    have "s_currentImageIndex (displayCurrentImage ld ?s) < length (s_imageFiles ?s)"
      by (rule displayCurrentImage_index) (use assms in simp)
    with True SELECT show ?thesis by (simp add: handleButton_def)
  qed
qed

lemma task_pass_index:
  assumes "s_currentImageIndex s < length (s_imageFiles s)"
  shows "s_imageFiles (fst (task_pass ld pd tk received s)) = s_imageFiles s
       \<and> s_currentImageIndex (fst (task_pass ld pd tk received s)) < length (s_imageFiles s)"
proof -
  define s1 where "s1 = (case received of
                  None \<Rightarrow> s
                | Some btnEvt \<Rightarrow>
                    (if pressed btnEvt
                     then handleButton ld (tick_handler tk) btnEvt
                            (s\<lparr> s_lastActivityTick := tick_activity tk \<rparr>)
                     else s))"
  define s2 where "s2 = (if s_state s1 = DISPLAYING \<and> s_autoAdvance s1
                   \<and> tick_auto tk - s_lastAutoAdvanceTick s1 \<ge> auto_advance_ticks pd
                then (displayCurrentImage ld
                        (s1\<lparr> s_currentImageIndex :=
                               (s_currentImageIndex s1 + 1) mod length (s_imageFiles s1) \<rparr>))
                     \<lparr> s_lastAutoAdvanceTick := tick_auto tk \<rparr>
                else s1)"
  have f1: "s_imageFiles s1 = s_imageFiles s"
    by (simp add: s1_def handleButton_frame split: option.splits)
  have "s_currentImageIndex (handleButton ld (tick_handler tk) e
            (s\<lparr> s_lastActivityTick := tick_activity tk \<rparr>))
          < length (s_imageFiles (s\<lparr> s_lastActivityTick := tick_activity tk \<rparr>))" for e
    by (rule handleButton_index) (use assms in simp)
  then have i1: "s_currentImageIndex s1 < length (s_imageFiles s)"
    using assms by (simp add: s1_def split: option.splits)
  have f2: "s_imageFiles s2 = s_imageFiles s"
    by (simp add: s2_def f1 displayCurrentImage_frame)
  have "s_currentImageIndex (displayCurrentImage ld
           (s1\<lparr> s_currentImageIndex := (s_currentImageIndex s1 + 1) mod length (s_imageFiles s1) \<rparr>))
          < length (s_imageFiles (s1\<lparr> s_currentImageIndex :=
               (s_currentImageIndex s1 + 1) mod length (s_imageFiles s1) \<rparr>))"
  proof (rule displayCurrentImage_index)
    from assms have "0 < length (s_imageFiles s)" by linarith
    then have "(s_currentImageIndex s1 + 1) mod length (s_imageFiles s) < length (s_imageFiles s)"
      by (rule mod_less_divisor)
    then show "s_currentImageIndex (s1\<lparr> s_currentImageIndex :=
               (s_currentImageIndex s1 + 1) mod length (s_imageFiles s1) \<rparr>)
        < length (s_imageFiles (s1\<lparr> s_currentImageIndex :=
               (s_currentImageIndex s1 + 1) mod length (s_imageFiles s1) \<rparr>))"
      by (simp add: f1)
  qed
  then have i2: "s_currentImageIndex s2 < length (s_imageFiles s)"
    using i1 by (simp add: s2_def f1)
  have "fst (task_pass ld pd tk received s) =
      (if tick_idle tk - s_lastActivityTick s2 \<ge> inactivity_ticks pd
       then s2\<lparr> s_log := s_log s2 @ [LogInactivity],
                g_display := g_display s2 @
                     [ClearBuffer, SetCursor 20 140, Print ''Sleeping...'', Display] \<rparr>
       else s2)"
    by (simp add: task_pass_def Let_def s1_def [symmetric] s2_def [symmetric])
  with f2 i2 show ?thesis by simp
qed

lemma task_index:
  assumes "s_currentImageIndex s < length (s_imageFiles s)"
  shows "s_imageFiles (task ld pd inputs s) = s_imageFiles s
       \<and> s_currentImageIndex (task ld pd inputs s) < length (s_imageFiles s)"
  using assms
proof (induction inputs arbitrary: s)
  case Nil
  then show ?case by simp
next
  case (Cons a inputs)
  obtain tk received where a: "a = (tk, received)"
    by (cases a)
  obtain s' asleep where p: "task_pass ld pd tk received s = (s', asleep)"
    by (cases "task_pass ld pd tk received s")
  from task_pass_index [OF Cons.prems, of ld pd tk received] p
  have f: "s_imageFiles s' = s_imageFiles s"
    and i: "s_currentImageIndex s' < length (s_imageFiles s)"
    by simp_all
  then have "s_currentImageIndex s' < length (s_imageFiles s')"
    by simp
  then have "s_imageFiles (task ld pd inputs s') = s_imageFiles s'
       \<and> s_currentImageIndex (task ld pd inputs s') < length (s_imageFiles s')"
    by (rule Cons.IH)
  with f i show ?case
    by (simp add: a p)
qed

lemma up_index:
  assumes "i < N"
  shows "(if i = 0 then N - 1 else i - 1) = (i + N - 1) mod (N :: nat)"
proof (cases "i = 0")
  case True
  with assms show ?thesis by simp
next
  case False
  then have "i + N - 1 = (i - 1) + N" by simp
  then have "(i + N - 1) mod N = (i - 1) mod N" by (simp only: mod_add_self2)
  with assms False show ?thesis by simp
qed

text \<open>
  C6 (amended). With a non-empty list of \<open>N\<close> images and a current index in
  \<open>[0, N)\<close>, the index stays in \<open>[0, N)\<close> over every finite sequence of passes of
  the task, whatever buttons arrive and whenever auto-advance fires. UP sets the index to
  \<open>(i + N - 1) mod N\<close>, DOWN and auto-advance set it to \<open>(i + 1) mod N\<close>, and the
  render that follows leaves it there when the image at the new index loads. (When it
  does not load, the render moves the index on, as in C7.)
\<close>

theorem index_invariant:
  assumes "s_currentImageIndex s < length (s_imageFiles s)"
  shows "s_imageFiles (task ld pd inputs s) = s_imageFiles s
     \<and> s_currentImageIndex (task ld pd inputs s) < length (s_imageFiles s)
     \<and> (s_state s = DISPLAYING \<longrightarrow>
          (\<forall>d. fst (ld (s_imageFiles s ! ((s_currentImageIndex s + length (s_imageFiles s) - 1)
                                            mod length (s_imageFiles s))) d)) \<longrightarrow>
          s_currentImageIndex (handleButton ld t \<lparr> id_evt = UP, pressed = True \<rparr> s)
            = (s_currentImageIndex s + length (s_imageFiles s) - 1) mod length (s_imageFiles s))
     \<and> (s_state s = DISPLAYING \<longrightarrow>
          (\<forall>d. fst (ld (s_imageFiles s ! ((s_currentImageIndex s + 1)
                                            mod length (s_imageFiles s))) d)) \<longrightarrow>
          s_currentImageIndex (handleButton ld t \<lparr> id_evt = DOWN, pressed = True \<rparr> s)
            = (s_currentImageIndex s + 1) mod length (s_imageFiles s))
     \<and> (s_state s = DISPLAYING \<longrightarrow> s_autoAdvance s \<longrightarrow>
          auto_advance_ticks pd \<le> tick_auto tk - s_lastAutoAdvanceTick s \<longrightarrow>
          (\<forall>d. fst (ld (s_imageFiles s ! ((s_currentImageIndex s + 1)
                                            mod length (s_imageFiles s))) d)) \<longrightarrow>
          s_currentImageIndex (fst (task_pass ld pd tk None s))
            = (s_currentImageIndex s + 1) mod length (s_imageFiles s))"
proof -
  define N where "N = length (s_imageFiles s)"
  define i where "i = s_currentImageIndex s"
  from assms have lt: "i < N" and ne: "s_imageFiles s \<noteq> []"
    by (auto simp add: N_def i_def)
  then have pos: "0 < N" by simp
  have next_lt: "(i + 1) mod N < N"
    using pos by (rule mod_less_divisor)
  have prev_lt: "(i + N - 1) mod N < N"
    using pos by (rule mod_less_divisor)
  have inv: "s_imageFiles (task ld pd inputs s) = s_imageFiles s
     \<and> s_currentImageIndex (task ld pd inputs s) < length (s_imageFiles s)"
    using assms by (rule task_index)
  have stay: "s_currentImageIndex (displayCurrentImage ld (s\<lparr> s_currentImageIndex := j \<rparr>)) = j"
    if "j < N" and "\<forall>d. fst (ld (s_imageFiles s ! j) d)" for j
  proof -
    have "s_currentImageIndex (displayCurrentImage ld (s\<lparr> s_currentImageIndex := j \<rparr>))
        = s_currentImageIndex (s\<lparr> s_currentImageIndex := j \<rparr>)"
      by (rule displayCurrentImage_loaded) (use that in \<open>simp_all add: N_def\<close>)
    then show ?thesis by simp
  qed
  have up: "s_currentImageIndex (handleButton ld t \<lparr> id_evt = UP, pressed = True \<rparr> s)
            = (i + N - 1) mod N"
    if "s_state s = DISPLAYING" and "\<forall>d. fst (ld (s_imageFiles s ! ((i + N - 1) mod N)) d)"
  proof -
    have "handleButton ld t \<lparr> id_evt = UP, pressed = True \<rparr> s
        = (displayCurrentImage ld
             (s\<lparr> s_currentImageIndex := (if i = 0 then N - 1 else i - 1) \<rparr>))
          \<lparr> s_lastAutoAdvanceTick := t \<rparr>"
      using that(1) ne by (simp add: handleButton_def N_def i_def)
    then have "handleButton ld t \<lparr> id_evt = UP, pressed = True \<rparr> s
        = (displayCurrentImage ld (s\<lparr> s_currentImageIndex := (i + N - 1) mod N \<rparr>))
          \<lparr> s_lastAutoAdvanceTick := t \<rparr>"
      by (simp only: up_index [OF lt])
    then show ?thesis
      using stay [OF prev_lt that(2)] by simp
  qed
  have down: "s_currentImageIndex (handleButton ld t \<lparr> id_evt = DOWN, pressed = True \<rparr> s)
            = (i + 1) mod N"
    if "s_state s = DISPLAYING" and "\<forall>d. fst (ld (s_imageFiles s ! ((i + 1) mod N)) d)"
    using that ne pos stay [OF next_lt]
    by (simp add: handleButton_def N_def [symmetric] i_def [symmetric])
  have auto: "s_currentImageIndex (fst (task_pass ld pd tk None s)) = (i + 1) mod N"
    if "s_state s = DISPLAYING" and "s_autoAdvance s"
      and "auto_advance_ticks pd \<le> tick_auto tk - s_lastAutoAdvanceTick s"
      and "\<forall>d. fst (ld (s_imageFiles s ! ((i + 1) mod N)) d)"
    using that stay [OF next_lt]
    by (simp add: task_pass_def Let_def N_def [symmetric] i_def [symmetric])
  from inv up down auto show ?thesis
    unfolding N_def i_def by blast
qed

theorem index_invariant_witness:
  "s_currentImageIndex demo_auto < length (s_imageFiles demo_auto)
   \<and> s_state demo_auto = DISPLAYING
   \<and> s_autoAdvance demo_auto
   \<and> auto_advance_ticks demo_periods \<le> tick_auto demo_ticks - s_lastAutoAdvanceTick demo_auto
   \<and> s_currentImageIndex
        (task (bmp_loader exact_scaler blank_memory demo_card)
            demo_periods demo_presses demo_auto) < 3
   \<and> s_currentImageIndex
        (handleButton (bmp_loader exact_scaler blank_memory demo_card) 7
           \<lparr> id_evt = UP, pressed = True \<rparr> demo_auto) = 2
   \<and> s_currentImageIndex
        (handleButton (bmp_loader exact_scaler blank_memory demo_card) 7
           \<lparr> id_evt = DOWN, pressed = True \<rparr> demo_auto) = 1
   \<and> s_currentImageIndex
        (fst (task_pass (bmp_loader exact_scaler blank_memory demo_card)
               demo_periods demo_ticks None demo_auto)) = 1"
proof -
  have h1: "s_currentImageIndex demo_auto < length (s_imageFiles demo_auto)"
    by (simp add: demo_auto_def demo_good_def demo_show_def)
  have h2: "s_state demo_auto = DISPLAYING" and h3: "s_autoAdvance demo_auto"
    by (simp_all add: demo_auto_def demo_good_def demo_show_def)
  have h4: "auto_advance_ticks demo_periods
      \<le> tick_auto demo_ticks - s_lastAutoAdvanceTick demo_auto"
    by (simp add: demo_auto_def demo_good_def demo_show_def demo_periods_def demo_ticks_def)
  have v: "s_currentImageIndex demo_auto = 0"
    "s_imageFiles demo_auto = [''/sdcard/images/b.BMP'', ''/sdcard/images/rle.bmp'',
                                ''/sdcard/images/four.bmp'']"
    by (simp_all add: demo_auto_def demo_good_def demo_show_def)
  have h5: "\<forall>d. fst (bmp_loader exact_scaler blank_memory demo_card
      (s_imageFiles demo_auto ! ((s_currentImageIndex demo_auto
          + length (s_imageFiles demo_auto) - 1) mod length (s_imageFiles demo_auto))) d)"
    by (simp add: v demo_loader)
  have h6: "\<forall>d. fst (bmp_loader exact_scaler blank_memory demo_card
      (s_imageFiles demo_auto ! ((s_currentImageIndex demo_auto + 1)
          mod length (s_imageFiles demo_auto))) d)"
    by (simp add: v demo_loader)
  show ?thesis
    using index_invariant [OF h1, of "bmp_loader exact_scaler blank_memory demo_card" demo_periods
        demo_presses 7 demo_ticks] h1 h2 h3 h4 h5 h6
    by (simp add: v)
qed

text \<open>
  The claim as stated fails where the previous image does not load: with three images
  of which the first and the last are too short to load, UP at index 0 ends at index 0,
  not at 2.
\<close>

theorem index_invariant_counterexample:
  "s_state demo_show = DISPLAYING
   \<and> s_currentImageIndex demo_show = 0
   \<and> length (s_imageFiles demo_show) = 3
   \<and> s_currentImageIndex
        (handleButton (bmp_loader exact_scaler blank_memory demo_card) 7
           \<lparr> id_evt = UP, pressed = True \<rparr> demo_show) = 0"
  by (simp add: demo_show_def handleButton_def displayCurrentImage.simps demo_loader)

section \<open>Button handling\<close>

text \<open>
  C9. A button event handled while the state is not DISPLAYING changes nothing: index,
  auto-advance flag, state, timestamps, panel and log are as before.
\<close>

theorem handleButton_ignored:
  assumes "s_state s \<noteq> DISPLAYING"
  shows "handleButton ld tick evt s = s"
  using assms by (simp add: handleButton_def)

theorem handleButton_ignored_witness:
  "s_state (demo_show\<lparr> s_state := ERROR \<rparr>) \<noteq> DISPLAYING
   \<and> handleButton (bmp_loader exact_scaler blank_memory demo_card) 7
         \<lparr> id_evt = DOWN, pressed = True \<rparr> (demo_show\<lparr> s_state := ERROR \<rparr>)
       = demo_show\<lparr> s_state := ERROR \<rparr>"
  using handleButton_ignored [of "demo_show\<lparr> s_state := ERROR \<rparr>"
      "bmp_loader exact_scaler blank_memory demo_card" 7
      "\<lparr> id_evt = DOWN, pressed = True \<rparr>"]
  by (simp add: demo_show_def)

lemma task_pass_idle:
  assumes "tick_auto tk - s_lastAutoAdvanceTick s < auto_advance_ticks pd"
  shows "s_currentImageIndex (fst (task_pass ld pd tk None s)) = s_currentImageIndex s"
proof -
  from assms have "\<not> auto_advance_ticks pd \<le> tick_auto tk - s_lastAutoAdvanceTick s"
    by (simp add: not_le)
  then show ?thesis
    by (simp add: task_pass_def Let_def)
qed

text \<open>
  C10 (amended). In state DISPLAYING, a SELECT press toggles the auto-advance flag and
  sets the last-advance timestamp to the tick count read at the press, so a later pass
  of the task advances automatically only when at least the auto-advance period has
  elapsed since the press. The state stays DISPLAYING, and the current index is
  unchanged when the current image loads again in the render that ends the handler.
\<close>

theorem select_toggles:
  assumes "s_state s = DISPLAYING"
  shows "let s' = handleButton ld t \<lparr> id_evt = SELECT, pressed = True \<rparr> s
         in s_autoAdvance s' = (\<not> s_autoAdvance s)
            \<and> s_lastAutoAdvanceTick s' = t
            \<and> s_state s' = DISPLAYING
            \<and> ((s_currentImageIndex s < length (s_imageFiles s) \<longrightarrow>
                   (\<forall>d. fst (ld (s_imageFiles s ! s_currentImageIndex s) d)))
                 \<longrightarrow> s_currentImageIndex s' = s_currentImageIndex s)
            \<and> (\<forall>tk. tick_auto tk - t < auto_advance_ticks pd \<longrightarrow>
                   s_currentImageIndex (fst (task_pass ld pd tk None s'))
                     = s_currentImageIndex s')"
proof -
  define s0 where "s0 = s\<lparr> s_autoAdvance := \<not> s_autoAdvance s,
                s_lastAutoAdvanceTick := t,
                s_log := s_log s @ [LogAutoAdvance (\<not> s_autoAdvance s)],
                g_display := g_display s @
                  [SetTextSize 2, SetTextColor EPD_BLACK, FillRect 0 0 128 30 EPD_WHITE,
                   SetCursor 10 10,
                   Print (if \<not> s_autoAdvance s then ''AUTO'' else ''MANUAL''),
                   Display] \<rparr>"
  define s' where "s' = handleButton ld t \<lparr> id_evt = SELECT, pressed = True \<rparr> s"
  have e: "s' = displayCurrentImage ld s0"
    using assms by (simp add: s'_def s0_def handleButton_def)
  have fr: "s_autoAdvance s' = (\<not> s_autoAdvance s)" "s_lastAutoAdvanceTick s' = t"
    "s_state s' = DISPLAYING"
    using assms displayCurrentImage_frame [of ld s0] by (simp_all add: e s0_def)
  have ix: "s_currentImageIndex s' = s_currentImageIndex s"
    if "s_currentImageIndex s < length (s_imageFiles s) \<longrightarrow>
          (\<forall>d. fst (ld (s_imageFiles s ! s_currentImageIndex s) d))"
  proof (cases "s_currentImageIndex s < length (s_imageFiles s)")
    case True
    with that have "fst (ld (s_imageFiles s0 ! s_currentImageIndex s0) (g_display s0))"
      by (simp add: s0_def)
    moreover from True have "s_currentImageIndex s0 < length (s_imageFiles s0)"
      by (simp add: s0_def)
    ultimately have "s_currentImageIndex (displayCurrentImage ld s0) = s_currentImageIndex s0"
      by (rule displayCurrentImage_loaded [rotated])
    then show ?thesis by (simp add: e s0_def)
  next
    case False
    then have "\<not> s_currentImageIndex s0 < length (s_imageFiles s0)"
      by (simp add: s0_def)
    then have "displayCurrentImage ld s0 = s0"
      by (rule displayCurrentImage_out_of_range)
    then show ?thesis by (simp add: e s0_def)
  qed
  have quiet: "s_currentImageIndex (fst (task_pass ld pd tk None s')) = s_currentImageIndex s'"
    if "tick_auto tk - t < auto_advance_ticks pd" for tk
    by (rule task_pass_idle) (use that fr in simp)
  from fr ix quiet show ?thesis
    unfolding Let_def s'_def [symmetric] by blast
qed

theorem select_toggles_witness:
  "s_state demo_good = DISPLAYING
   \<and> s_currentImageIndex demo_good < length (s_imageFiles demo_good)
   \<and> tick_auto demo_ticks - 2500 < auto_advance_ticks demo_periods
   \<and> s_autoAdvance (handleButton (bmp_loader exact_scaler blank_memory demo_card) 2500
          \<lparr> id_evt = SELECT, pressed = True \<rparr> demo_good)
   \<and> s_lastAutoAdvanceTick (handleButton (bmp_loader exact_scaler blank_memory demo_card) 2500
          \<lparr> id_evt = SELECT, pressed = True \<rparr> demo_good) = 2500
   \<and> s_currentImageIndex (handleButton (bmp_loader exact_scaler blank_memory demo_card) 2500
          \<lparr> id_evt = SELECT, pressed = True \<rparr> demo_good) = 0
   \<and> s_currentImageIndex
        (fst (task_pass (bmp_loader exact_scaler blank_memory demo_card)
               demo_periods demo_ticks None
               (handleButton (bmp_loader exact_scaler blank_memory demo_card) 2500
                  \<lparr> id_evt = SELECT, pressed = True \<rparr> demo_good))) = 0"
proof -
  have h1: "s_state demo_good = DISPLAYING"
    by (simp add: demo_good_def demo_show_def)
  have v: "s_currentImageIndex demo_good = 0"
    "s_imageFiles demo_good = [''/sdcard/images/b.BMP'', ''/sdcard/images/rle.bmp'',
                                ''/sdcard/images/four.bmp'']"
    "\<not> s_autoAdvance demo_good"
    by (simp_all add: demo_good_def demo_show_def)
  have h2: "\<forall>d. fst (bmp_loader exact_scaler blank_memory demo_card
      (s_imageFiles demo_good ! s_currentImageIndex demo_good) d)"
    by (simp add: v demo_loader)
  have h3: "tick_auto demo_ticks - 2500 < auto_advance_ticks demo_periods"
    by (simp add: demo_ticks_def demo_periods_def)
  show ?thesis
    using select_toggles [OF h1, of "bmp_loader exact_scaler blank_memory demo_card" 2500
        demo_periods]
      h1 h2 h3
    by (simp add: v Let_def)
qed

text \<open>
  The claim as stated fails where the current image does not load: after the first
  render and a press of DOWN the controller is at index 0, whose file is too short, and
  SELECT moves the index to 1.
\<close>

theorem select_toggles_counterexample:
  "s_state demo_wrapped = DISPLAYING
   \<and> s_currentImageIndex demo_wrapped = 0
   \<and> s_currentImageIndex
        (handleButton (bmp_loader exact_scaler blank_memory demo_card) 9
           \<lparr> id_evt = SELECT, pressed = True \<rparr> demo_wrapped) = 1"
proof -
  have w: "demo_wrapped =
     demo_show\<lparr> g_display := [ClearBuffer] @ black_row @ [Display],
                s_log := [LogDisplaying 1 3 ''/sdcard/images/a.bmp'', LogLoadFailed,
                          LogDisplaying 2 3 ''/sdcard/images/b.BMP'',
                          LogDisplaying 3 3 ''/sdcard/images/c.bmp'', LogLoadFailed],
                s_currentImageIndex := 0, s_lastAutoAdvanceTick := 5 \<rparr>"
    by (simp add: demo_wrapped_def demo_show_def handleButton_def displayCurrentImage.simps
        demo_loader)
  show ?thesis
    unfolding w
    by (simp add: demo_show_def handleButton_def displayCurrentImage.simps demo_loader)
qed

end
